theory Spec2Isabelle
  imports Complex_Main "HOL-Library.Product_Lexorder" "HOL-Library.AList" "HOL-Library.Multiset"
begin

section \<open>Data model\<close>

text \<open>
  The module \<^verbatim>\<open>search_engines.py\<close> works on Python values:
  \<^item> document numbers and encoded words are Python integers (\<open>int\<close>);
  \<^item> tf-idf weights, norms and similarity scores are Python floats, read here as
    real numbers (\<open>real\<close>): rounding, infinities and NaN are outside the model;
  \<^item> a dictionary that is only looked up (the vocabulary, the loaded inverted
    indexes, the squared tf-idf sums) is a map \<open>'k \<rightharpoonup> 'v\<close>;
  \<^item> a dictionary that the code iterates over (the scores of the selected
    documents, the index under construction) is an association list in insertion
    order, whose keys are distinct as the keys of a Python \<^verbatim>\<open>dict\<close> are;
  \<^item> an exception is a value \<open>Inl e\<close> of the sum type \<open>error + 'a\<close>.
\<close>

datatype error = KeyError | IndexError | ValueError | ZeroDivisionError

type_synonym doc = int
type_synonym token = int

section \<open>Helper functions\<close>

subsection \<open>\<^verbatim>\<open>encode_query\<close>\<close>

text \<open>
  \<^verbatim>\<open>
  encoded = []
  for token in query:
      if token in vocabulary: encoded.append(vocabulary[token])
      else: return False
  return encoded
  \<close>
  The result is a list or \<^verbatim>\<open>False\<close>; \<open>None\<close> stands for \<^verbatim>\<open>False\<close>.
\<close>

fun encode_loop :: "string list \<Rightarrow> (string \<rightharpoonup> token) \<Rightarrow> token list \<Rightarrow> token list option" where
  "encode_loop [] vocabulary encoded = Some encoded"
| "encode_loop (tok # query) vocabulary encoded =
     (case vocabulary tok of
        Some t \<Rightarrow> encode_loop query vocabulary (encoded @ [t])
      | None \<Rightarrow> None)"

definition encode_query :: "string list \<Rightarrow> (string \<rightharpoonup> token) \<Rightarrow> token list option" where
  "encode_query query vocabulary = encode_loop query vocabulary []"

text \<open>Python's \<^verbatim>\<open>not encoded_query\<close>: true of \<^verbatim>\<open>False\<close> and of the empty list.\<close>

definition py_not :: "token list option \<Rightarrow> bool" where
  "py_not encoded_query = (case encoded_query of None \<Rightarrow> True | Some q \<Rightarrow> q = [])"

section \<open>The synchronized cursors of the search engines\<close>

text \<open>
  \<^verbatim>\<open>selected_lists = [inverted_idx[token] for token in encoded_query]\<close>:
  a token without an entry raises \<^verbatim>\<open>KeyError\<close>.
\<close>

fun select_lists :: "(token \<rightharpoonup> 'a list) \<Rightarrow> token list \<Rightarrow> error + 'a list list" where
  "select_lists inverted_idx [] = Inr []"
| "select_lists inverted_idx (t # encoded_query) =
     (case inverted_idx t of
        None \<Rightarrow> Inl KeyError
      | Some my_list \<Rightarrow>
          (case select_lists inverted_idx encoded_query of
             Inl e \<Rightarrow> Inl e
           | Inr selected_lists \<Rightarrow> Inr (my_list # selected_lists)))"

text \<open>\<^verbatim>\<open>all([k < m for k, m in zip(idx, lists_len)])\<close>\<close>

definition cursors_in_range :: "nat list \<Rightarrow> nat list \<Rightarrow> bool" where
  "cursors_in_range idx lists_len = list_all (\<lambda>(k, m). k < m) (zip idx lists_len)"

text \<open>
  \<^verbatim>\<open>[docs[idx[list_num]] for list_num, docs in selected_lists2]\<close>, where
  \<^verbatim>\<open>selected_lists2 = list(enumerate(selected_lists))\<close>. Both engines evaluate it
  only inside the loop and after the check that \<open>idx\<close> is as long as
  \<open>selected_lists\<close>, where every read is in range.
\<close>

definition pointed :: "nat list \<Rightarrow> 'a list list \<Rightarrow> 'a list" where
  "pointed idx selected_lists =
     map (\<lambda>(list_num, docs). docs ! (idx ! list_num)) (enumerate 0 selected_lists)"

text \<open>Python's \<^verbatim>\<open>max\<close> of a list: \<^verbatim>\<open>ValueError\<close> on the empty list.\<close>

fun py_max :: "int list \<Rightarrow> error + int" where
  "py_max [] = Inl ValueError"
| "py_max (x # xs) = Inr (fold max xs x)"

text \<open>
  \<^verbatim>\<open>
  j = 0
  for my_list in selected_lists:
      if my_list[idx[j]] == max_num: pass
      else: idx[j] += 1
      j += 1
  \<close>
  \<open>key\<close> reads the document number of an entry: the entry itself in
  \<^verbatim>\<open>search_engine\<close>, its first component in \<^verbatim>\<open>search_engine_2\<close>.
\<close>

definition advance_lagging :: "('a \<Rightarrow> doc) \<Rightarrow> doc \<Rightarrow> 'a list list \<Rightarrow> nat list \<Rightarrow> nat list" where
  "advance_lagging key max_num selected_lists idx =
     fold (\<lambda>(j, my_list) idx.
             if key (my_list ! (idx ! j)) = max_num then idx else idx[j := idx ! j + 1])
          (enumerate 0 selected_lists) idx"

text \<open>The work left for the cursors: the entries not yet passed, over all lists.\<close>

definition remaining :: "'a list list \<Rightarrow> nat list \<Rightarrow> nat" where
  "remaining selected_lists idx =
     (\<Sum>j<length selected_lists. length (selected_lists ! j) - idx ! j)"

lemma pointed_eq:
  "pointed idx ls = map (\<lambda>j. ls ! j ! (idx ! j)) [0..<length ls]"
  unfolding pointed_def enumerate_eq_zip
  by (rule nth_equalityI) simp_all

lemma py_max_eq: "xs \<noteq> [] \<Longrightarrow> py_max xs = Inr (Max (set xs))"
proof (cases xs)
  case (Cons a list)
  then show ?thesis using Max.set_eq_fold[of a list] by simp
qed simp

lemma py_max_Inr: "py_max xs = Inr m \<Longrightarrow> xs \<noteq> [] \<and> m = Max (set xs)"
  using py_max_eq[of xs] by (cases xs) auto

lemma cursors_in_range_iff:
  "cursors_in_range idx (map length ls) \<longleftrightarrow>
     (\<forall>j. j < length idx \<and> j < length ls \<longrightarrow> idx ! j < length (ls ! j))"
  by (auto simp: cursors_in_range_def list_all_length)

lemma advance_lagging_props:
  "length (advance_lagging key m ls idx) = length idx \<and>
   (\<forall>j<length idx. advance_lagging key m ls idx ! j =
      (if j < length ls \<and> key (ls ! j ! (idx ! j)) \<noteq> m then idx ! j + 1 else idx ! j))"
proof (induction ls rule: rev_induct)
  case Nil
  show ?case by (simp add: advance_lagging_def)
next
  case (snoc x xs)
  define idx' where "idx' = advance_lagging key m xs idx"
  have enum: "enumerate 0 (xs @ [x]) = enumerate 0 xs @ [(length xs, x)]"
    by (simp add: enumerate_eq_zip)
  have step: "advance_lagging key m (xs @ [x]) idx =
      (if key (x ! (idx' ! length xs)) = m then idx'
       else idx'[length xs := idx' ! length xs + 1])"
    by (simp add: advance_lagging_def enum idx'_def)
  from snoc have len: "length idx' = length idx"
    and nth: "\<And>j. j < length idx \<Longrightarrow> idx' ! j =
      (if j < length xs \<and> key (xs ! j ! (idx ! j)) \<noteq> m then idx ! j + 1 else idx ! j)"
    by (simp_all add: idx'_def)
  show ?case
  proof (intro conjI allI impI)
    show "length (advance_lagging key m (xs @ [x]) idx) = length idx"
      by (simp add: step len)
  next
    fix j assume j: "j < length idx"
    show "advance_lagging key m (xs @ [x]) idx ! j =
      (if j < length (xs @ [x]) \<and> key ((xs @ [x]) ! j ! (idx ! j)) \<noteq> m
       then idx ! j + 1 else idx ! j)"
    proof (cases "j = length xs")
      case True
      with j nth[of j] show ?thesis by (simp add: step len)
    next
      case False
      with j nth[of j] show ?thesis
        by (cases "j < length xs") (simp_all add: step len nth_append)
    qed
  qed
qed

lemma remaining_all_advance:
  assumes "cursors_in_range idx (map length ls)" "\<not> length idx < length ls" "ls \<noteq> []"
  shows "remaining ls (map (\<lambda>i. i + 1) idx) < remaining ls idx"
  unfolding remaining_def
proof (rule sum_strict_mono_ex1)
  show "finite {..<length ls}" by simp
  show "\<forall>j\<in>{..<length ls}. length (ls ! j) - map (\<lambda>i. i + 1) idx ! j \<le> length (ls ! j) - idx ! j"
    using assms(2) by auto
  have "0 < length ls" using assms(3) by simp
  moreover have "0 < length idx" using assms(2) \<open>0 < length ls\<close> by linarith
  ultimately have "idx ! 0 < length (ls ! 0)"
    using assms(1) by (simp add: cursors_in_range_iff)
  with \<open>0 < length ls\<close> \<open>0 < length idx\<close>
  show "\<exists>j\<in>{..<length ls}. length (ls ! j) - map (\<lambda>i. i + 1) idx ! j < length (ls ! j) - idx ! j"
    by (intro bexI[of _ 0]) auto
qed

lemma remaining_lagging_advance:
  assumes inr: "cursors_in_range idx (map length ls)" and len: "\<not> length idx < length ls"
    and nall: "\<not> list_all (\<lambda>d. d = m) (map key (pointed idx ls))"
  shows "remaining ls (advance_lagging key m ls idx) < remaining ls idx"
  unfolding remaining_def
proof (rule sum_strict_mono_ex1)
  note adv = advance_lagging_props[of key m ls idx]
  show "finite {..<length ls}" by simp
  show "\<forall>j\<in>{..<length ls}. length (ls ! j) - advance_lagging key m ls idx ! j \<le> length (ls ! j) - idx ! j"
    using adv len by auto
  from nall obtain j where j: "j < length ls" "key (ls ! j ! (idx ! j)) \<noteq> m"
    by (auto simp: pointed_eq list_all_length)
  with inr len have "idx ! j < length (ls ! j)"
    by (simp add: cursors_in_range_iff)
  with j adv len
  show "\<exists>j\<in>{..<length ls}. length (ls ! j) - advance_lagging key m ls idx ! j < length (ls ! j) - idx ! j"
    by (intro bexI[of _ j]) auto
qed

section \<open>\<^verbatim>\<open>search_engine\<close>\<close>

text \<open>
  The \<^verbatim>\<open>while\<close> loop of \<^verbatim>\<open>search_engine\<close>. \<open>idx\<close> and \<open>result\<close> are the loop's
  variables. Reading \<^verbatim>\<open>idx[list_num]\<close> raises \<^verbatim>\<open>IndexError\<close> when \<open>idx\<close> is
  shorter than \<open>selected_lists\<close>, and \<^verbatim>\<open>max\<close> raises \<^verbatim>\<open>ValueError\<close> on no list
  at all.
\<close>

function intersect_while :: "doc list list \<Rightarrow> nat list \<Rightarrow> doc list \<Rightarrow> error + doc list" where
  "intersect_while selected_lists idx result =
     (if cursors_in_range idx (map length selected_lists) then
        (if length idx < length selected_lists then Inl IndexError
         else
           (case py_max (pointed idx selected_lists) of
              Inl e \<Rightarrow> Inl e
            | Inr max_num \<Rightarrow>
                if list_all (\<lambda>d. d = max_num) (pointed idx selected_lists)
                then intersect_while selected_lists (map (\<lambda>i. i + 1) idx) (result @ [max_num])
                else intersect_while selected_lists
                       (advance_lagging (\<lambda>d. d) max_num selected_lists idx) result))
      else Inr result)"
  by pat_completeness auto
termination
proof (relation "measure (\<lambda>(selected_lists, idx, result). remaining selected_lists idx)")
  show "wf (measure (\<lambda>(selected_lists, idx, result). remaining selected_lists idx))"
    by simp
next
  fix selected_lists :: "doc list list" and idx result max_num
  assume "cursors_in_range idx (map length selected_lists)"
    "\<not> length idx < length selected_lists"
    "py_max (pointed idx selected_lists) = Inr max_num"
  moreover from this have "selected_lists \<noteq> []"
    by (auto simp: pointed_def dest: py_max_Inr)
  ultimately show "((selected_lists, map (\<lambda>i. i + 1) idx, result @ [max_num]),
      (selected_lists, idx, result))
    \<in> measure (\<lambda>(selected_lists, idx, result). remaining selected_lists idx)"
    using remaining_all_advance[of idx selected_lists] by simp
next
  fix selected_lists :: "doc list list" and idx result max_num
  assume "cursors_in_range idx (map length selected_lists)"
    "\<not> length idx < length selected_lists"
    "\<not> list_all (\<lambda>d. d = max_num) (pointed idx selected_lists)"
  then show "((selected_lists, advance_lagging (\<lambda>d. d) max_num selected_lists idx, result),
      (selected_lists, idx, result))
    \<in> measure (\<lambda>(selected_lists, idx, result). remaining selected_lists idx)"
    using remaining_lagging_advance[of idx selected_lists max_num "\<lambda>d. d"] by simp
qed

declare intersect_while.simps [simp del]

text \<open>
  \<^verbatim>\<open>
  result = []
  if not encoded_query: return result
  else:
      selected_lists = [inverted_idx[token] for token in encoded_query]
      idx = [0] * len(selected_lists)
      ... the loop ...
      return result
  \<close>
\<close>

definition search_engine :: "token list option \<Rightarrow> (token \<rightharpoonup> doc list) \<Rightarrow> error + doc list" where
  "search_engine encoded_query inverted_idx =
     (if py_not encoded_query then Inr []
      else
        (case select_lists inverted_idx (the encoded_query) of
           Inl e \<Rightarrow> Inl e
         | Inr selected_lists \<Rightarrow>
             intersect_while selected_lists (replicate (length selected_lists) 0) []))"

subsection \<open>What the loop computes\<close>

lemma strict_sorted_drop_gt:
  assumes "sorted_wrt (<) (L::int list)" "i < length L" "d \<in> set (drop (Suc i) L)"
  shows "L ! i < d"
proof -
  from assms(3) obtain k where k: "k < length L - Suc i" "d = L ! (Suc i + k)"
    by (auto simp: in_set_conv_nth)
  with assms(1,2) show ?thesis
    by (auto simp: sorted_wrt_iff_nth_less)
qed

lemma pointed_nonempty: "ls \<noteq> [] \<Longrightarrow> pointed idx ls \<noteq> []"
  by (simp add: pointed_eq)

lemma intersect_while_correct:
  assumes "ls \<noteq> []" "length idx = length ls" "\<forall>L\<in>set ls. sorted_wrt (<) L"
  shows "intersect_while ls idx result =
    Inr (result @ filter (\<lambda>d. \<forall>j<length ls. d \<in> set (drop (idx ! j) (ls ! j)))
                    (drop (idx ! 0) (ls ! 0)))"
  using assms
proof (induction ls idx result rule: intersect_while.induct)
  case (1 ls idx result)
  let ?S = "\<lambda>idx j. drop (idx ! j) (ls ! j)"
  let ?P = "\<lambda>idx d. \<forall>j<length ls. d \<in> set (?S idx j)"
  let ?I = "\<lambda>idx. filter (?P idx) (?S idx 0)"
  have n0: "0 < length ls" using "1.prems" by simp
  have srt: "\<And>j. j < length ls \<Longrightarrow> sorted_wrt (<) (ls ! j)"
    using "1.prems" by simp
  show ?case
  proof (cases "cursors_in_range idx (map length ls)")
    case False
    then obtain j where j: "j < length ls" "length (ls ! j) \<le> idx ! j"
      using "1.prems" by (auto simp: cursors_in_range_iff not_less)
    then have "?S idx j = []" by simp
    with j have "?I idx = []" by (auto simp: filter_empty_conv)
    with False show ?thesis by (subst intersect_while.simps) simp
  next
    case True
    then have inr: "\<And>j. j < length ls \<Longrightarrow> idx ! j < length (ls ! j)"
      using "1.prems" by (simp add: cursors_in_range_iff)
    define m where "m = Max (set (pointed idx ls))"
    have pne: "pointed idx ls \<noteq> []" using "1.prems" by (simp add: pointed_nonempty)
    have pm: "py_max (pointed idx ls) = Inr m"
      using py_max_eq[OF pne] by (simp add: m_def)
    have len: "\<not> length idx < length ls" using "1.prems" by simp
    have le_m: "\<And>j. j < length ls \<Longrightarrow> ls ! j ! (idx ! j) \<le> m"
      unfolding m_def by (rule Max_ge) (auto simp: pointed_eq)
    have "m \<in> set (pointed idx ls)"
      unfolding m_def using pne by (intro Max_in) auto
    then obtain k where k: "k < length ls" "ls ! k ! (idx ! k) = m"
      by (auto simp: pointed_eq)
    have hd: "\<And>j. j < length ls \<Longrightarrow> ?S idx j = ls ! j ! (idx ! j) # drop (Suc (idx ! j)) (ls ! j)"
      using inr by (simp add: Cons_nth_drop_Suc)
    have gt: "\<And>j d. j < length ls \<Longrightarrow> d \<in> set (drop (Suc (idx ! j)) (ls ! j)) \<Longrightarrow> ls ! j ! (idx ! j) < d"
      using strict_sorted_drop_gt[OF srt inr] by blast
    have ge_m: "\<And>d. ?P idx d \<Longrightarrow> m \<le> d"
    proof -
      fix d assume "?P idx d"
      with k have "d \<in> set (?S idx k)" by blast
      with hd[OF k(1)] gt[OF k(1), of d] k(2) show "m \<le> d" by auto
    qed
    show ?thesis
    proof (cases "list_all (\<lambda>d. d = m) (pointed idx ls)")
      case all: True
      then have eq: "\<And>j. j < length ls \<Longrightarrow> ls ! j ! (idx ! j) = m"
        by (simp add: pointed_eq list_all_length)
      let ?idx' = "map (\<lambda>i. i + 1) idx"
      have S': "\<And>j. j < length ls \<Longrightarrow> ?S idx j = m # ?S ?idx' j"
        using hd eq "1.prems" by simp
      have IH: "intersect_while ls ?idx' (result @ [m]) = Inr ((result @ [m]) @ ?I ?idx')"
        using "1.IH"(1)[OF True len pm all] "1.prems" by simp
      have Pm: "?P idx m" using S' by simp
      have "filter (?P idx) (?S ?idx' 0) = filter (?P ?idx') (?S ?idx' 0)"
      proof (rule filter_cong[OF refl])
        fix d assume "d \<in> set (?S ?idx' 0)"
        then have "m < d" using gt[OF n0, of d] eq[OF n0] "1.prems" n0 by simp
        then show "?P idx d = ?P ?idx' d" using S' by auto
      qed
      then have "?I idx = m # ?I ?idx'"
        using S'[OF n0] Pm by simp
      with IH True len pm all show ?thesis
        by (subst intersect_while.simps) simp
    next
      case nall: False
      let ?idx' = "advance_lagging (\<lambda>d. d) m ls idx"
      note adv = advance_lagging_props[of "\<lambda>d. d" m ls idx]
      have len': "length ?idx' = length ls" using adv "1.prems" by simp
      have nth': "\<And>j. j < length ls \<Longrightarrow> ?idx' ! j = (if ls ! j ! (idx ! j) \<noteq> m then idx ! j + 1 else idx ! j)"
        using adv "1.prems" by simp
      have IH: "intersect_while ls ?idx' result = Inr (result @ ?I ?idx')"
        using "1.IH"(2)[OF True len pm nall] "1.prems" len' by simp
      have S': "\<And>j. j < length ls \<Longrightarrow> ?S idx j =
          (if ls ! j ! (idx ! j) \<noteq> m then ls ! j ! (idx ! j) # ?S ?idx' j else ?S ?idx' j)"
        using hd nth' by simp
      have PP: "\<And>d. ?P idx d = ?P ?idx' d"
      proof 
        fix d assume P: "?P idx d"
        show "?P ?idx' d"
        proof (intro allI impI)
          fix j assume j: "j < length ls"
          from P j have "d \<in> set (?S idx j)" by blast
          moreover have "m \<le> d" using ge_m[OF P] .
          ultimately show "d \<in> set (?S ?idx' j)"
            using S'[OF j] le_m[OF j] by (auto split: if_splits)
        qed
      next
        fix d assume P: "?P ?idx' d"
        show "?P idx d"
        proof (intro allI impI)
          fix j assume j: "j < length ls"
          from P j have "d \<in> set (?S ?idx' j)" by blast
          then show "d \<in> set (?S idx j)"
            using S'[OF j] by (auto split: if_splits)
        qed
      qed
      have "?I idx = ?I ?idx'"
      proof (cases "ls ! 0 ! (idx ! 0) = m")
        case True
        with S'[OF n0] PP show ?thesis by simp
      next
        case False
        then have "\<not> ?P idx (ls ! 0 ! (idx ! 0))"
          using ge_m[of "ls ! 0 ! (idx ! 0)"] le_m[OF n0] by auto
        with S'[OF n0] False PP show ?thesis by simp
      qed
      with IH True len pm nall show ?thesis
        by (subst intersect_while.simps) simp
    qed
  qed
qed

lemma select_lists_Inr:
  "\<forall>t\<in>set q. \<exists>L. inverted_idx t = Some L \<Longrightarrow>
   select_lists inverted_idx q = Inr (map (\<lambda>t. the (inverted_idx t)) q)"
  by (induction q) auto

lemma select_lists_length:
  "select_lists inverted_idx q = Inr ls \<Longrightarrow> length ls = length q"
  by (induction q arbitrary: ls) (auto split: option.splits sum.splits)

lemma intersect_while_returns:
  assumes "ls \<noteq> []" "length idx = length ls"
  shows "\<exists>r. intersect_while ls idx result = Inr r"
  using assms
proof (induction ls idx result rule: intersect_while.induct)
  case (1 ls idx result)
  show ?case
  proof (cases "cursors_in_range idx (map length ls)")
    case False
    then show ?thesis by (subst intersect_while.simps) simp
  next
    case True
    have len: "\<not> length idx < length ls" using "1.prems" by simp
    obtain m where pm: "py_max (pointed idx ls) = Inr m"
      using py_max_eq[OF pointed_nonempty[OF "1.prems"(1)]] by blast
    show ?thesis
    proof (cases "list_all (\<lambda>d. d = m) (pointed idx ls)")
      case all: True
      from "1.IH"(1)[OF True len pm all] "1.prems" True len pm all
      show ?thesis by (subst intersect_while.simps) simp
    next
      case nall: False
      have "length (advance_lagging (\<lambda>d. d) m ls idx) = length ls"
        using advance_lagging_props[of "\<lambda>d. d" m ls idx] "1.prems" by simp
      from "1.IH"(2)[OF True len pm nall "1.prems"(1) this] True len pm nall
      show ?thesis by (subst intersect_while.simps) simp
    qed
  qed
qed

text \<open>
  Claim C1. For a non-empty encoded query whose tokens all have a posting list in the
  index, each list strictly ascending (ascending and free of duplicates),
  \<^verbatim>\<open>search_engine\<close> returns a list whose elements are exactly the documents that
  occur in every selected list, in strictly ascending order. The result is empty when
  one of the lists is empty, and it is the list itself when the query has one token.
\<close>

theorem search_engine_intersection:
  assumes ne: "encoded_query \<noteq> []"
    and srt: "\<forall>t\<in>set encoded_query. \<exists>L. inverted_idx t = Some L \<and> sorted_wrt (<) L"
  shows "\<exists>result. search_engine (Some encoded_query) inverted_idx = Inr result \<and>
     set result = (\<Inter>t\<in>set encoded_query. set (the (inverted_idx t))) \<and>
     sorted_wrt (<) result \<and>
     ((\<exists>t\<in>set encoded_query. inverted_idx t = Some []) \<longrightarrow> result = []) \<and>
     (\<forall>t. encoded_query = [t] \<longrightarrow> result = the (inverted_idx t))"
proof -
  define ls where "ls = map (\<lambda>t. the (inverted_idx t)) encoded_query"
  define result where
    "result = filter (\<lambda>d. \<forall>j<length ls. d \<in> set (ls ! j)) (ls ! 0)"
  have sel: "select_lists inverted_idx encoded_query = Inr ls"
    unfolding ls_def using srt by (intro select_lists_Inr) blast
  have lne: "ls \<noteq> []" using ne by (simp add: ls_def)
  have lsrt: "\<forall>L\<in>set ls. sorted_wrt (<) L" using srt by (auto simp: ls_def)
  have "intersect_while ls (replicate (length ls) 0) [] =
      Inr ([] @ filter (\<lambda>d. \<forall>j<length ls. d \<in> set (drop (replicate (length ls) 0 ! j) (ls ! j)))
                    (drop (replicate (length ls) 0 ! 0) (ls ! 0)))"
    using lne lsrt by (intro intersect_while_correct) simp_all
  also have "\<dots> = Inr result"
    using lne by (simp add: result_def cong: filter_cong)
  finally have run: "search_engine (Some encoded_query) inverted_idx = Inr result"
    using ne sel by (simp add: search_engine_def py_not_def)
  have all_j: "\<And>d. (\<forall>j<length ls. d \<in> set (ls ! j)) \<longleftrightarrow> (\<forall>L\<in>set ls. d \<in> set L)"
    by (simp add: all_set_conv_all_nth)
  have set_r: "set result = (\<Inter>t\<in>set encoded_query. set (the (inverted_idx t)))"
  proof -
    have "ls ! 0 \<in> set ls" using lne by simp
    then have "set result = (\<Inter>L\<in>set ls. set L)"
      unfolding result_def by (auto simp: all_j)
    then show ?thesis by (simp add: ls_def)
  qed
  have "sorted_wrt (<) (ls ! 0)" using lsrt lne by simp
  then have sorted_r: "sorted_wrt (<) result"
    unfolding result_def by (rule sorted_wrt_filter)
  have empty_r: "(\<exists>t\<in>set encoded_query. inverted_idx t = Some []) \<longrightarrow> result = []"
  proof
    assume "\<exists>t\<in>set encoded_query. inverted_idx t = Some []"
    then have "set result = {}" unfolding set_r by force
    then show "result = []" by simp
  qed
  have single_r: "\<forall>t. encoded_query = [t] \<longrightarrow> result = the (inverted_idx t)"
    by (auto simp: result_def ls_def)
  from run set_r sorted_r empty_r single_r show ?thesis by blast
qed

theorem search_engine_intersection_witness:
  "search_engine (Some [1, 2, 3])
     [1 \<mapsto> [1, 3, 4, 7], 2 \<mapsto> [2, 3, 7, 9], 3 \<mapsto> [3, 5, 7]] = Inr [3, 7]"
proof -
  let ?idx = "[1 \<mapsto> [1, 3, 4, 7], 2 \<mapsto> [2, 3, 7, 9], 3 \<mapsto> [3, 5, 7::int]] :: int \<rightharpoonup> int list"
  have a: "[1, 2, 3::int] \<noteq> []" by simp
  have b: "\<forall>t\<in>set [1, 2, 3::int]. \<exists>L. ?idx t = Some L \<and> sorted_wrt (<) L" by simp
  from search_engine_intersection[OF a b] obtain result where
    r: "search_engine (Some [1, 2, 3]) ?idx = Inr result"
       "set result = (\<Inter>t\<in>set [1, 2, 3]. set (the (?idx t)))" "sorted_wrt (<) result"
    by blast
  have "set result = {3, 7}" unfolding r(2) by auto
  moreover have "sorted_wrt (<) [3, 7::int]" by simp
  moreover have "set [3, 7::int] = {3, 7}" by simp
  ultimately have "result = [3, 7]"
    using r(3) by (metis strict_sorted_equal)
  with r(1) show ?thesis by simp
qed

subsection \<open>Termination of the loop\<close>

text \<open>
  Claim C9. For a non-empty encoded query whose tokens select the posting lists
  \<open>selected_lists\<close>, the loop of \<^verbatim>\<open>search_engine\<close> terminates and the call returns
  a result. In every state of the cursors the loop can reach (one cursor per list):
  the loop condition holds exactly when every cursor is inside its list; when it fails
  (a cursor has passed the end of its list) the loop exits with the result so far;
  when it holds, one iteration leaves no cursor behind, moves at least one cursor
  forward, and so strictly decreases \<open>remaining\<close>, the number of entries not yet
  passed, which is the measure of the loop's termination proof.
\<close>

theorem intersection_loop_terminates:
  assumes ne: "encoded_query \<noteq> []"
    and sel: "select_lists inverted_idx encoded_query = Inr selected_lists"
    and len: "length idx = length selected_lists"
  shows "(\<exists>result. search_engine (Some encoded_query) inverted_idx = Inr result) \<and>
    (cursors_in_range idx (map length selected_lists) \<longleftrightarrow>
       (\<forall>j<length selected_lists. idx ! j < length (selected_lists ! j))) \<and>
    (\<not> cursors_in_range idx (map length selected_lists) \<longrightarrow>
       intersect_while selected_lists idx result = Inr result) \<and>
    (cursors_in_range idx (map length selected_lists) \<longrightarrow>
       (\<exists>max_num idx' result'.
          py_max (pointed idx selected_lists) = Inr max_num \<and>
          (idx', result') =
            (if list_all (\<lambda>d. d = max_num) (pointed idx selected_lists)
             then (map (\<lambda>i. i + 1) idx, result @ [max_num])
             else (advance_lagging (\<lambda>d. d) max_num selected_lists idx, result)) \<and>
          intersect_while selected_lists idx result = intersect_while selected_lists idx' result' \<and>
          length idx' = length idx \<and>
          (\<forall>j<length idx. idx ! j \<le> idx' ! j) \<and>
          (\<exists>j<length idx. idx ! j < idx' ! j) \<and>
          remaining selected_lists idx' < remaining selected_lists idx))"
proof -
  have lne: "selected_lists \<noteq> []"
    using select_lists_length[OF sel] ne by auto
  have nlt: "\<not> length idx < length selected_lists" using len by simp
  have returns: "\<exists>result. search_engine (Some encoded_query) inverted_idx = Inr result"
    using intersect_while_returns[OF lne, of "replicate (length selected_lists) 0" "[]"] ne sel
    by (simp add: search_engine_def py_not_def)
  have cond: "cursors_in_range idx (map length selected_lists) \<longleftrightarrow>
       (\<forall>j<length selected_lists. idx ! j < length (selected_lists ! j))"
    using len by (simp add: cursors_in_range_iff)
  have exit: "\<not> cursors_in_range idx (map length selected_lists) \<longrightarrow>
       intersect_while selected_lists idx result = Inr result"
    by (subst intersect_while.simps) simp
  have step: "\<exists>max_num idx' result'.
          py_max (pointed idx selected_lists) = Inr max_num \<and>
          (idx', result') =
            (if list_all (\<lambda>d. d = max_num) (pointed idx selected_lists)
             then (map (\<lambda>i. i + 1) idx, result @ [max_num])
             else (advance_lagging (\<lambda>d. d) max_num selected_lists idx, result)) \<and>
          intersect_while selected_lists idx result = intersect_while selected_lists idx' result' \<and>
          length idx' = length idx \<and>
          (\<forall>j<length idx. idx ! j \<le> idx' ! j) \<and>
          (\<exists>j<length idx. idx ! j < idx' ! j) \<and>
          remaining selected_lists idx' < remaining selected_lists idx"
    if inr: "cursors_in_range idx (map length selected_lists)"
  proof -
    obtain m where pm: "py_max (pointed idx selected_lists) = Inr m"
      using py_max_eq[OF pointed_nonempty[OF lne]] by blast
    show ?thesis
    proof (cases "list_all (\<lambda>d. d = m) (pointed idx selected_lists)")
      case True
      have unf: "intersect_while selected_lists idx result =
          intersect_while selected_lists (map (\<lambda>i. i + 1) idx) (result @ [m])"
        using inr nlt pm True by (subst intersect_while.simps) simp
      have "0 < length idx" using lne len by simp
      then have adv: "\<exists>j<length idx. idx ! j < map (\<lambda>i. i + 1) idx ! j"
        by (intro exI[of _ 0]) simp
      show ?thesis
        using pm True unf adv remaining_all_advance[OF inr nlt lne]
        by (intro exI[of _ m] exI[of _ "map (\<lambda>i. i + 1) idx"] exI[of _ "result @ [m]"]) simp
    next
      case False
      let ?idx' = "advance_lagging (\<lambda>d. d) m selected_lists idx"
      note props = advance_lagging_props[of "\<lambda>d. d" m selected_lists idx]
      have unf: "intersect_while selected_lists idx result =
          intersect_while selected_lists ?idx' result"
        using inr nlt pm False by (subst intersect_while.simps) simp
      from False obtain j where j: "j < length selected_lists"
          "selected_lists ! j ! (idx ! j) \<noteq> m"
        by (auto simp: pointed_eq list_all_length)
      then have adv: "\<exists>j<length idx. idx ! j < ?idx' ! j"
        using props len by (intro exI[of _ j]) simp
      have mono: "\<forall>j<length idx. idx ! j \<le> ?idx' ! j"
        using props by simp
      have "\<not> list_all (\<lambda>d. d = m) (map (\<lambda>d. d) (pointed idx selected_lists))"
        using False by simp
      from remaining_lagging_advance[OF inr nlt this]
      show ?thesis
        using pm False unf adv mono props
        by (intro exI[of _ m] exI[of _ ?idx'] exI[of _ result]) simp
    qed
  qed
  from returns cond exit step show ?thesis by blast
qed

theorem intersection_loop_terminates_witness:
  "(\<exists>result. search_engine (Some [1, 2]) [1 \<mapsto> [1, 3], 2 \<mapsto> [2, 3]] = Inr result) \<and>
   cursors_in_range [0, 0] (map length [[1, 3], [2, 3::int]]) \<and>
   remaining [[1, 3], [2, 3::int]] (advance_lagging (\<lambda>d. d) 2 [[1, 3], [2, 3]] [0, 0])
     < remaining [[1, 3], [2, 3::int]] [0, 0] \<and>
   \<not> cursors_in_range [2, 2] (map length [[1, 3], [2, 3::int]]) \<and>
   intersect_while [[1, 3], [2, 3]] [2, 2] [3] = Inr [3]"
proof -
  let ?idx = "[1 \<mapsto> [1, 3], 2 \<mapsto> [2, 3::int]] :: int \<rightharpoonup> int list"
  have a: "[1, 2::int] \<noteq> []" by simp
  have b: "select_lists ?idx [1, 2] = Inr [[1, 3], [2, 3]]" by simp
  have c: "length [0, 0::nat] = length [[1, 3], [2, 3::int]]" by simp
  have c2: "length [2, 2::nat] = length [[1, 3], [2, 3::int]]" by simp
  have in0: "cursors_in_range [0, 0] (map length [[1, 3], [2, 3::int]])"
    by (simp add: cursors_in_range_def)
  have out2: "\<not> cursors_in_range [2, 2] (map length [[1, 3], [2, 3::int]])"
    by (simp add: cursors_in_range_def)
  have p0: "pointed [0, 0] [[1, 3], [2, 3::int]] = [1, 2]"
    by (simp add: pointed_def)
  note t0 = intersection_loop_terminates[OF a b c, of "[]"]
  note t2 = intersection_loop_terminates[OF a b c2, of "[3]"]
  from t0 in0 have "remaining [[1, 3], [2, 3::int]] (advance_lagging (\<lambda>d. d) 2 [[1, 3], [2, 3]] [0, 0])
     < remaining [[1, 3], [2, 3::int]] [0, 0]"
    by (simp add: p0)
  moreover from t2 out2 have "intersect_while [[1, 3], [2, 3]] [2, 2] [3] = Inr [3]"
    by blast
  ultimately show ?thesis using t0 in0 out2 by blast
qed

section \<open>Ranking helpers\<close>

subsection \<open>\<^verbatim>\<open>get_top_k\<close>\<close>

text \<open>
  \<^verbatim>\<open>heapq.nsmallest(k, heap)\<close> belongs to Python's library, which documents it as
  \<^verbatim>\<open>sorted(heap)[:k]\<close>; a slice up to a negative \<open>k\<close> of that function is empty.
  Tuples compare lexicographically, which is the order of pairs here.
\<close>

definition nsmallest :: "int \<Rightarrow> ('a::linorder) list \<Rightarrow> 'a list" where
  "nsmallest n iterable = take (nat n) (sort iterable)"

text \<open>
  \<^verbatim>\<open>
  heap = [(-value, key) for key, value in dic.items()]
  largest = heapq.nsmallest(k, heap)
  return [(key, -value) for value, key in largest]
  \<close>
\<close>

definition get_top_k :: "(doc \<times> real) list \<Rightarrow> int \<Rightarrow> (doc \<times> real) list" where
  "get_top_k dic k =
     map (\<lambda>(v, key). (key, - v))
       (nsmallest k (map (\<lambda>(key, v). (- v, key)) dic))"

lemma heap_sorted_fst:
  "sorted (S :: (real \<times> int) list) \<Longrightarrow> sorted_wrt (\<lambda>x y. fst x \<le> fst y) S"
  by (induction S) (auto simp: less_eq_prod_def)

lemma swap_back: "map (\<lambda>(v, key). (key, - v)) (map (\<lambda>(key, v). (- v, key)) dic) = (dic :: (int \<times> real) list)"
  by (induction dic) auto

lemma mset_get_top_k_all:
  "mset (map (\<lambda>(v, key). (key, - v)) (sort (map (\<lambda>(key, v). (- v, key)) dic))) = mset (dic :: (int \<times> real) list)"
proof -
  have "mset (map (\<lambda>(v, key). (key, - v)) (sort (map (\<lambda>(key, v). (- v, key)) dic)))
      = mset (map (\<lambda>(v, key). (key, - v)) (map (\<lambda>(key, v). (- v, key)) dic))"
    by (simp only: mset_map mset_sort)
  then show ?thesis by (simp only: swap_back)
qed

text \<open>
  Claim C5. For every score dictionary and every \<open>k\<close>, the list returned by
  \<^verbatim>\<open>get_top_k\<close> has \<open>min k n\<close> entries (\<open>n\<close> the number of entries of the
  dictionary, \<open>k\<close> counted as 0 when negative), is sorted by descending score, is made
  of entries of the dictionary, each taken at most once, and holds the largest scores:
  no entry left out has a higher score than an entry returned. With \<open>k = 0\<close> the list
  is empty; with \<open>k\<close> at least \<open>n\<close> it holds every entry.
\<close>

theorem get_top_k_largest:
  "length (get_top_k dic k) = min (nat k) (length dic) \<and>
   sorted_wrt (\<lambda>a b. snd b \<le> snd a) (get_top_k dic k) \<and>
   mset (get_top_k dic k) \<subseteq># mset dic \<and>
   (\<forall>x\<in>set (get_top_k dic k). \<forall>y\<in>set dic - set (get_top_k dic k). snd y \<le> snd x) \<and>
   (k = 0 \<longrightarrow> get_top_k dic k = []) \<and>
   (int (length dic) \<le> k \<longrightarrow> mset (get_top_k dic k) = mset dic)"
proof -
  define heap where "heap = map (\<lambda>(key, v). (- v, key)) dic"
  define S where "S = sort heap"
  define unheap where "unheap = (\<lambda>(v :: real, key :: int). (key, - v))"
  have r: "get_top_k dic k = map unheap (take (nat k) S)"
    by (simp add: get_top_k_def nsmallest_def heap_def S_def unheap_def)
  have all: "mset (map unheap S) = mset dic"
    unfolding S_def heap_def unheap_def by (rule mset_get_top_k_all)
  have len: "length (get_top_k dic k) = min (nat k) (length dic)"
    by (simp add: r S_def heap_def)
  have "sorted S" by (simp add: S_def)
  then have sf: "sorted_wrt (\<lambda>x y. fst x \<le> fst y) S" by (rule heap_sorted_fst)
  then have "sorted_wrt (\<lambda>x y. fst x \<le> fst y) (take (nat k) S)"
    by (rule sorted_wrt_take)
  then have desc: "sorted_wrt (\<lambda>a b. snd b \<le> snd a) (get_top_k dic k)"
    by (simp add: r sorted_wrt_map unheap_def case_prod_beta)
  have split: "map unheap S = get_top_k dic k @ map unheap (drop (nat k) S)"
    unfolding r by (simp flip: map_append)
  have sub: "mset (get_top_k dic k) \<subseteq># mset dic"
    unfolding all[symmetric] by (subst split) simp
  have largest: "\<forall>x\<in>set (get_top_k dic k). \<forall>y\<in>set dic - set (get_top_k dic k). snd y \<le> snd x"
  proof (intro ballI)
    fix x y assume x: "x \<in> set (get_top_k dic k)" and y: "y \<in> set dic - set (get_top_k dic k)"
    from x obtain a where a: "a \<in> set (take (nat k) S)" "x = unheap a" by (auto simp: r)
    from y have "y \<in> set (map unheap S)" using all by (metis DiffD1 set_mset_mset)
    with y split have "y \<in> set (map unheap (drop (nat k) S))" by auto
    then obtain b where b: "b \<in> set (drop (nat k) S)" "y = unheap b" by auto
    have "sorted_wrt (\<lambda>x y. fst x \<le> fst y) (take (nat k) S @ drop (nat k) S)"
      using sf by simp
    with a(1) b(1) have "fst a \<le> fst b"
      unfolding sorted_wrt_append by blast
    then show "snd y \<le> snd x" by (simp add: a b unheap_def case_prod_beta)
  qed
  have zero: "k = 0 \<longrightarrow> get_top_k dic k = []" unfolding r by simp
  have full: "int (length dic) \<le> k \<longrightarrow> mset (get_top_k dic k) = mset dic"
  proof
    assume "int (length dic) \<le> k"
    then have "length S \<le> nat k" by (simp add: S_def heap_def)
    then have "get_top_k dic k = map unheap S" by (simp add: r)
    with all show "mset (get_top_k dic k) = mset dic" by simp
  qed
  from len desc sub largest zero full show ?thesis by blast
qed

theorem get_top_k_largest_witness:
  "get_top_k [(1, 1/2), (2, 3/4), (3, 1/2), (4, 1/4)] 3 = [(2, 3/4), (1, 1/2), (3, 1/2)] \<and>
   length (get_top_k [(1, 1/2), (2, 3/4), (3, 1/2), (4, 1/4)] 3) = 3 \<and>
   1/4 \<le> snd (last (get_top_k [(1, 1/2), (2, 3/4), (3, 1/2), (4, 1/4)] 3)) \<and>
   get_top_k [(1, 1/2), (2, 3/4), (3, 1/2), (4, 1/4)] 0 = [] \<and>
   mset (get_top_k [(1, 1/2), (2, 3/4)] 5) = mset [(1, 1/2), (2, 3/4)]"
proof -
  let ?dic = "[(1, 1/2), (2, 3/4), (3, 1/2), (4, 1/4)] :: (int \<times> real) list"
  have v: "get_top_k ?dic 3 = [(2, 3/4), (1, 1/2), (3, 1/2)]"
    by (simp add: get_top_k_def nsmallest_def)
  have "(4, 1/4) \<in> set ?dic - set (get_top_k ?dic 3)"
    unfolding v by simp
  with get_top_k_largest[of ?dic 3]
  have "\<forall>x\<in>set (get_top_k ?dic 3). snd (4 :: int, 1/4 :: real) \<le> snd x" by blast
  moreover have "last (get_top_k ?dic 3) \<in> set (get_top_k ?dic 3)"
    unfolding v by simp
  ultimately have "1/4 \<le> snd (last (get_top_k ?dic 3))" by fastforce
  moreover have "length (get_top_k ?dic 3) = 3"
    using get_top_k_largest[of ?dic 3] by simp
  moreover have "get_top_k ?dic 0 = []"
    using get_top_k_largest[of ?dic 0] by simp
  moreover have "mset (get_top_k [(1, 1/2), (2, 3/4)] 5) = mset [(1, 1/2), (2, 3/4 :: real)]"
    using get_top_k_largest[of "[(1, 1/2), (2, 3/4)]" 5] by simp
  ultimately show ?thesis using v by blast
qed

text \<open>
  Claim C10. In the list returned by \<^verbatim>\<open>get_top_k\<close> for a dictionary (distinct
  keys), two entries of equal score appear in ascending order of their keys, and the
  list does not depend on the order in which the dictionary yields its entries: it is
  a function of the entries and of \<open>k\<close> alone.
\<close>

theorem get_top_k_ties:
  assumes "distinct (map fst dic)"
  shows "(\<forall>i j. i < j \<and> j < length (get_top_k dic k) \<and>
            snd (get_top_k dic k ! i) = snd (get_top_k dic k ! j) \<longrightarrow>
            fst (get_top_k dic k ! i) < fst (get_top_k dic k ! j)) \<and>
         (\<forall>dic'. mset dic' = mset dic \<longrightarrow> get_top_k dic' k = get_top_k dic k)"
proof -
  define heap where "heap = map (\<lambda>(key, v). (- v, key)) dic"
  define S where "S = sort heap"
  define unheap where "unheap = (\<lambda>(v :: real, key :: int). (key, - v))"
  have r: "get_top_k dic k = map unheap (take (nat k) S)"
    by (simp add: get_top_k_def nsmallest_def heap_def S_def unheap_def)
  have "map snd heap = map fst dic" by (simp add: heap_def case_prod_beta)
  with assms have "distinct (map snd heap)" by simp
  then have "distinct heap" by (rule distinct_map[THEN iffD1, THEN conjunct1])
  then have dS: "distinct S" by (simp add: S_def)
  have sS: "sorted S" by (simp add: S_def)
  have ties: "\<forall>i j. i < j \<and> j < length (get_top_k dic k) \<and>
            snd (get_top_k dic k ! i) = snd (get_top_k dic k ! j) \<longrightarrow>
            fst (get_top_k dic k ! i) < fst (get_top_k dic k ! j)"
  proof (intro allI impI, elim conjE)
    fix i j assume ij: "i < j" and j: "j < length (get_top_k dic k)"
      and eq: "snd (get_top_k dic k ! i) = snd (get_top_k dic k ! j)"
    from j have jk: "j < nat k" "j < length S" by (simp_all add: r)
    with ij have ik: "i < nat k" "i < length S" by simp_all
    have gi: "get_top_k dic k ! i = unheap (S ! i)" and gj: "get_top_k dic k ! j = unheap (S ! j)"
      using ik jk by (simp_all add: r)
    have le: "S ! i \<le> S ! j" using sS ij jk by (simp add: sorted_nth_mono)
    have ne: "S ! i \<noteq> S ! j" using dS ij ik jk by (simp add: nth_eq_iff_index_eq)
    from eq have "fst (S ! i) = fst (S ! j)" by (simp add: gi gj unheap_def case_prod_beta)
    with le ne have "snd (S ! i) < snd (S ! j)"
      by (cases "S ! i"; cases "S ! j") (auto simp: less_eq_prod_def)
    then show "fst (get_top_k dic k ! i) < fst (get_top_k dic k ! j)"
      by (simp add: gi gj unheap_def case_prod_beta)
  qed
  have det: "\<forall>dic'. mset dic' = mset dic \<longrightarrow> get_top_k dic' k = get_top_k dic k"
  proof (intro allI impI)
    fix dic' :: "(int \<times> real) list" assume "mset dic' = mset dic"
    then have "mset (map (\<lambda>(key, v). (- v, key)) dic') = mset heap"
      by (simp add: heap_def)
    then have "sort (map (\<lambda>(key, v). (- v, key)) dic') = S"
      unfolding S_def by (intro properties_for_sort) simp_all
    then show "get_top_k dic' k = get_top_k dic k"
      by (simp add: get_top_k_def nsmallest_def S_def heap_def)
  qed
  from ties det show ?thesis by blast
qed

theorem get_top_k_ties_witness:
  "get_top_k [(3, 1/2), (2, 3/4), (1, 1/2)] 3 = [(2, 3/4), (1, 1/2), (3, 1/2)] \<and>
   get_top_k [(1, 1/2), (3, 1/2), (2, 3/4)] 3 = get_top_k [(3, 1/2), (2, 3/4), (1, 1/2)] 3 \<and>
   fst (get_top_k [(3, 1/2), (2, 3/4), (1, 1/2)] 3 ! 1) < fst (get_top_k [(3, 1/2), (2, 3/4), (1, 1/2)] 3 ! 2)"
proof -
  let ?dic = "[(3, 1/2), (2, 3/4), (1, 1/2)] :: (int \<times> real) list"
  have d: "distinct (map fst ?dic)" by simp
  have v: "get_top_k ?dic 3 = [(2, 3/4), (1, 1/2), (3, 1/2)]"
    by (simp add: get_top_k_def nsmallest_def)
  have m: "mset [(1, 1/2), (3, 1/2), (2, 3/4 :: real)] = mset ?dic"
    by (simp add: add_mset_commute)
  note t = get_top_k_ties[OF d, of 3]
  from t m have "get_top_k [(1, 1/2), (3, 1/2), (2, 3/4)] 3 = get_top_k ?dic 3" by blast
  moreover from t have "(1::nat) < 2 \<and> 2 < length (get_top_k ?dic 3) \<and>
            snd (get_top_k ?dic 3 ! 1) = snd (get_top_k ?dic 3 ! 2) \<longrightarrow>
            fst (get_top_k ?dic 3 ! 1) < fst (get_top_k ?dic 3 ! 2)" by blast
  then have "fst (get_top_k ?dic 3 ! 1) < fst (get_top_k ?dic 3 ! 2)"
    unfolding v by simp
  ultimately show ?thesis using v by blast
qed

subsection \<open>\<^verbatim>\<open>compute_cosine_similarity\<close>\<close>

text \<open>\<^verbatim>\<open>math.sqrt\<close> raises \<^verbatim>\<open>ValueError\<close> below zero; a float division by zero raises.\<close>

definition py_sqrt :: "real \<Rightarrow> error + real" where
  "py_sqrt x = (if x < 0 then Inl ValueError else Inr (sqrt x))"

definition py_div :: "real \<Rightarrow> real \<Rightarrow> error + real" where
  "py_div a b = (if b = 0 then Inl ZeroDivisionError else Inr (a / b))"

text \<open>
  \<^verbatim>\<open>docs_scores[doc] / ((math.sqrt(squared_tfidf_per_document[doc]))*(math.sqrt(len(encoded_query))))\<close>,
  evaluated from left to right.
\<close>

definition cos_similarity ::
  "token list \<Rightarrow> (doc \<times> real) list \<Rightarrow> (doc \<rightharpoonup> real) \<Rightarrow> doc \<Rightarrow> error + real" where
  "cos_similarity encoded_query docs_scores squared_tfidf_per_document d =
     (case map_of docs_scores d of
        None \<Rightarrow> Inl KeyError
      | Some score \<Rightarrow>
          (case squared_tfidf_per_document d of
             None \<Rightarrow> Inl KeyError
           | Some sq \<Rightarrow>
               (case py_sqrt sq of
                  Inl e \<Rightarrow> Inl e
                | Inr root_norm \<Rightarrow>
                    (case py_sqrt (real (length encoded_query)) of
                       Inl e \<Rightarrow> Inl e
                     | Inr root_len \<Rightarrow> py_div score (root_norm * root_len)))))"

text \<open>
  \<^verbatim>\<open>
  similarity_scores = {}
  for doc in docs_scores:
      cos_similarity = ...
      similarity_scores[doc] = cos_similarity
  return similarity_scores
  \<close>
\<close>

fun cosine_loop ::
  "token list \<Rightarrow> (doc \<times> real) list \<Rightarrow> (doc \<rightharpoonup> real) \<Rightarrow> doc list \<Rightarrow> (doc \<times> real) list
     \<Rightarrow> error + (doc \<times> real) list" where
  "cosine_loop encoded_query docs_scores squared_tfidf_per_document [] similarity_scores =
     Inr similarity_scores"
| "cosine_loop encoded_query docs_scores squared_tfidf_per_document (d # docs) similarity_scores =
     (case cos_similarity encoded_query docs_scores squared_tfidf_per_document d of
        Inl e \<Rightarrow> Inl e
      | Inr c \<Rightarrow>
          cosine_loop encoded_query docs_scores squared_tfidf_per_document docs
            (AList.update d c similarity_scores))"

definition compute_cosine_similarity ::
  "token list \<Rightarrow> (doc \<times> real) list \<Rightarrow> (doc \<rightharpoonup> real) \<Rightarrow> error + (doc \<times> real) list" where
  "compute_cosine_similarity encoded_query docs_scores squared_tfidf_per_document =
     cosine_loop encoded_query docs_scores squared_tfidf_per_document (map fst docs_scores) []"

lemma update_fresh: "k \<notin> fst ` set al \<Longrightarrow> AList.update k v al = al @ [(k, v)]"
  by (induction al) auto

lemma cos_similarity_Inr:
  "cos_similarity q ds sq d = Inr c \<longleftrightarrow>
     (\<exists>s n. map_of ds d = Some s \<and> sq d = Some n \<and> 0 < n \<and> q \<noteq> [] \<and>
            c = s / (sqrt n * sqrt (real (length q))))"
  by (auto simp: cos_similarity_def py_sqrt_def py_div_def split: option.splits)

lemma cosine_loop_Inr:
  assumes "cosine_loop q ds sq docs acc = Inr scores"
    and "distinct docs" and "set docs \<inter> fst ` set acc = {}"
  shows "(\<forall>d\<in>set docs. \<exists>c. cos_similarity q ds sq d = Inr c) \<and>
         scores = acc @ map (\<lambda>d. (d, projr (cos_similarity q ds sq d))) docs"
  using assms
proof (induction docs arbitrary: acc)
  case Nil
  then show ?case by simp
next
  case (Cons d docs)
  from Cons.prems(1) obtain c where c: "cos_similarity q ds sq d = Inr c"
    and rest: "cosine_loop q ds sq docs (AList.update d c acc) = Inr scores"
    by (auto split: sum.splits)
  have fresh: "d \<notin> fst ` set acc" using Cons.prems(3) by auto
  then have upd: "AList.update d c acc = acc @ [(d, c)]" by (rule update_fresh)
  have "set docs \<inter> fst ` set (AList.update d c acc) = {}"
    using Cons.prems(2,3) by (auto simp: upd)
  from Cons.IH[OF rest _ this] Cons.prems(2) c show ?case
    by (simp add: upd)
qed

lemma cosine_loop_total:
  assumes "\<forall>d\<in>set docs. \<exists>c. cos_similarity q ds sq d = Inr c"
  shows "\<exists>scores. cosine_loop q ds sq docs acc = Inr scores"
  using assms by (induction docs arbitrary: acc) auto

lemma cosine_loop_first_error:
  assumes "\<forall>x\<in>set pre. \<exists>c. cos_similarity q ds sq x = Inr c"
    and "cos_similarity q ds sq d = Inl e"
  shows "cosine_loop q ds sq (pre @ d # post) acc = Inl e"
  using assms by (induction pre arbitrary: acc) auto

lemma cos_similarity_degenerate:
  assumes "d \<in> fst ` set ds"
  shows "sq d = None \<Longrightarrow> cos_similarity q ds sq d = Inl KeyError"
    and "sq d = Some 0 \<Longrightarrow> cos_similarity q ds sq d = Inl ZeroDivisionError"
proof -
  from assms obtain s where "map_of ds d = Some s"
    by (metis domD dom_map_of_conv_image_fst)
  then show "sq d = None \<Longrightarrow> cos_similarity q ds sq d = Inl KeyError"
    and "sq d = Some 0 \<Longrightarrow> cos_similarity q ds sq d = Inl ZeroDivisionError"
    by (simp_all add: cos_similarity_def py_sqrt_def py_div_def)
qed

lemma compute_cosine_similarity_raises:
  assumes "docs_scores = pre @ (d, s) # post"
    and "\<forall>x\<in>fst ` set pre. \<exists>n. sq x = Some n \<and> 0 < n" and "q \<noteq> []"
  shows "sq d = None \<Longrightarrow> compute_cosine_similarity q docs_scores sq = Inl KeyError"
    and "sq d = Some 0 \<Longrightarrow> compute_cosine_similarity q docs_scores sq = Inl ZeroDivisionError"
proof -
  have d: "d \<in> fst ` set docs_scores" using assms(1) by force
  have pre: "\<forall>x\<in>set (map fst pre). \<exists>c. cos_similarity q docs_scores sq x = Inr c"
  proof
    fix x assume "x \<in> set (map fst pre)"
    then have x: "x \<in> fst ` set pre" by simp
    then have "x \<in> fst ` set docs_scores" using assms(1) by auto
    then obtain sx where "map_of docs_scores x = Some sx"
      by (metis domD dom_map_of_conv_image_fst)
    with assms(2,3) x show "\<exists>c. cos_similarity q docs_scores sq x = Inr c"
      unfolding cos_similarity_Inr by blast
  qed
  have keys: "map fst docs_scores = map fst pre @ d # map fst post"
    by (simp add: assms(1))
  show "sq d = None \<Longrightarrow> compute_cosine_similarity q docs_scores sq = Inl KeyError"
    unfolding compute_cosine_similarity_def keys
    using cos_similarity_degenerate(1)[OF d] pre by (intro cosine_loop_first_error) auto
  show "sq d = Some 0 \<Longrightarrow> compute_cosine_similarity q docs_scores sq = Inl ZeroDivisionError"
    unfolding compute_cosine_similarity_def keys
    using cos_similarity_degenerate(2)[OF d] pre by (intro cosine_loop_first_error) auto
qed

text \<open>
  What \<^verbatim>\<open>compute_cosine_similarity\<close> does with the stored norms. It leaves no
  candidate out. It returns similarity scores exactly when every candidate has a stored
  norm greater than zero and, if there is a candidate at all, the encoded query is not
  empty; then it returns one score for every candidate, in the candidates' order. A
  candidate whose stored norm is absent or zero makes the whole call raise: the first
  such candidate, when the ones before it have a norm greater than zero, raises
  \<^verbatim>\<open>KeyError\<close> for an absent norm and \<^verbatim>\<open>ZeroDivisionError\<close> for a zero one.
\<close>

lemma cosine_similarity_no_exclusion:
  assumes "distinct (map fst docs_scores)"
  shows "((\<exists>scores. compute_cosine_similarity encoded_query docs_scores
                     squared_tfidf_per_document = Inr scores) \<longleftrightarrow>
          (\<forall>d\<in>fst ` set docs_scores.
             \<exists>n. squared_tfidf_per_document d = Some n \<and> 0 < n \<and> encoded_query \<noteq> [])) \<and>
         (\<forall>scores. compute_cosine_similarity encoded_query docs_scores
                     squared_tfidf_per_document = Inr scores \<longrightarrow>
            map fst scores = map fst docs_scores) \<and>
         ((\<exists>d\<in>fst ` set docs_scores. squared_tfidf_per_document d = None \<or>
              squared_tfidf_per_document d = Some 0) \<longrightarrow>
            (\<exists>e. compute_cosine_similarity encoded_query docs_scores
                     squared_tfidf_per_document = Inl e)) \<and>
         (\<forall>pre d s post.
            docs_scores = pre @ (d, s) # post \<and> encoded_query \<noteq> [] \<and>
            (\<forall>x\<in>fst ` set pre. \<exists>n. squared_tfidf_per_document x = Some n \<and> 0 < n) \<longrightarrow>
            (squared_tfidf_per_document d = None \<longrightarrow>
               compute_cosine_similarity encoded_query docs_scores
                 squared_tfidf_per_document = Inl KeyError) \<and>
            (squared_tfidf_per_document d = Some 0 \<longrightarrow>
               compute_cosine_similarity encoded_query docs_scores
                 squared_tfidf_per_document = Inl ZeroDivisionError))"
proof -
  let ?run = "compute_cosine_similarity encoded_query docs_scores squared_tfidf_per_document"
  let ?ok = "\<forall>d\<in>fst ` set docs_scores.
             \<exists>n. squared_tfidf_per_document d = Some n \<and> 0 < n \<and> encoded_query \<noteq> []"
  have keys: "\<And>d. d \<in> fst ` set docs_scores \<Longrightarrow> \<exists>s. map_of docs_scores d = Some s"
    by (metis domD dom_map_of_conv_image_fst)
  have a: "?ok" if "?run = Inr scores" for scores
  proof -
    from cosine_loop_Inr[OF that[unfolded compute_cosine_similarity_def]] assms
    have "\<forall>d\<in>set (map fst docs_scores).
        \<exists>c. cos_similarity encoded_query docs_scores squared_tfidf_per_document d = Inr c"
      by simp
    then show ?thesis by (auto simp: cos_similarity_Inr)
  qed
  have b: "\<exists>scores. ?run = Inr scores" if "?ok"
    unfolding compute_cosine_similarity_def
  proof (rule cosine_loop_total, rule ballI)
    fix d assume "d \<in> set (map fst docs_scores)"
    then have d: "d \<in> fst ` set docs_scores" by simp
    with that keys[OF d] show "\<exists>c. cos_similarity encoded_query docs_scores
        squared_tfidf_per_document d = Inr c"
      unfolding cos_similarity_Inr by blast
  qed
  have c: "map fst scores = map fst docs_scores" if "?run = Inr scores" for scores
    using cosine_loop_Inr[OF that[unfolded compute_cosine_similarity_def]] assms
    by (simp add: comp_def)
  have d: "\<exists>e. ?run = Inl e"
    if "\<exists>d\<in>fst ` set docs_scores. squared_tfidf_per_document d = None \<or>
              squared_tfidf_per_document d = Some 0"
  proof -
    from that have "\<not> ?ok" by force
    with a have "\<nexists>scores. ?run = Inr scores" by blast
    then show ?thesis by (cases ?run) auto
  qed
  have e: "(squared_tfidf_per_document d = None \<longrightarrow> ?run = Inl KeyError) \<and>
           (squared_tfidf_per_document d = Some 0 \<longrightarrow> ?run = Inl ZeroDivisionError)"
    if "docs_scores = pre @ (d, s) # post" "encoded_query \<noteq> []"
       "\<forall>x\<in>fst ` set pre. \<exists>n. squared_tfidf_per_document x = Some n \<and> 0 < n"
    for pre d s post
    using compute_cosine_similarity_raises[OF that(1) that(3) that(2)] by blast
  have abcd: "((\<exists>scores. ?run = Inr scores) \<longleftrightarrow> ?ok) \<and>
     (\<forall>scores. ?run = Inr scores \<longrightarrow> map fst scores = map fst docs_scores) \<and>
     ((\<exists>d\<in>fst ` set docs_scores. squared_tfidf_per_document d = None \<or>
              squared_tfidf_per_document d = Some 0) \<longrightarrow> (\<exists>e. ?run = Inl e))"
    using a b c d by blast
  have e': "\<forall>pre d s post.
            docs_scores = pre @ (d, s) # post \<and> encoded_query \<noteq> [] \<and>
            (\<forall>x\<in>fst ` set pre. \<exists>n. squared_tfidf_per_document x = Some n \<and> 0 < n) \<longrightarrow>
            (squared_tfidf_per_document d = None \<longrightarrow> ?run = Inl KeyError) \<and>
            (squared_tfidf_per_document d = Some 0 \<longrightarrow> ?run = Inl ZeroDivisionError)"
  proof (intro allI, rule impI)
    fix pre d s post
    assume h: "docs_scores = pre @ (d, s) # post \<and> encoded_query \<noteq> [] \<and>
            (\<forall>x\<in>fst ` set pre. \<exists>n. squared_tfidf_per_document x = Some n \<and> 0 < n)"
    from h have h1: "docs_scores = pre @ (d, s) # post" by (rule conjunct1)
    from h have h2: "encoded_query \<noteq> []" by (rule conjunct2[THEN conjunct1])
    from h have h3: "\<forall>x\<in>fst ` set pre. \<exists>n. squared_tfidf_per_document x = Some n \<and> 0 < n"
      by (rule conjunct2[THEN conjunct2])
    show "(squared_tfidf_per_document d = None \<longrightarrow> ?run = Inl KeyError) \<and>
            (squared_tfidf_per_document d = Some 0 \<longrightarrow> ?run = Inl ZeroDivisionError)"
      by (rule e[OF h1 h2 h3])
  qed
  note p1 = abcd[THEN conjunct1] and p2 = abcd[THEN conjunct2, THEN conjunct1]
    and p3 = abcd[THEN conjunct2, THEN conjunct2]
  show ?thesis by (rule conjI[OF p1 conjI[OF p2 conjI[OF p3 e']]])
qed

lemma cosine_similarity_no_exclusion_example:
  "(\<exists>scores. compute_cosine_similarity [1] [(7, 2), (9, 1)] [7 \<mapsto> 4, 9 \<mapsto> 1] = Inr scores) \<and>
   compute_cosine_similarity [1] [(7, 2), (9, 1)] [7 \<mapsto> 4] = Inl KeyError \<and>
   compute_cosine_similarity [1] [(7, 2), (9, 1)] [7 \<mapsto> 4, 9 \<mapsto> 0] = Inl ZeroDivisionError"
proof -
  have d: "distinct (map fst [(7::int, 2::real), (9, 1)])" by simp
  have "\<forall>d\<in>fst ` set [(7::int, 2::real), (9, 1)].
      \<exists>n. [7 \<mapsto> 4, 9 \<mapsto> 1::real] d = Some n \<and> 0 < n \<and> [1::int] \<noteq> []" by simp
  with cosine_similarity_no_exclusion[OF d, of "[1]" "[7 \<mapsto> 4, 9 \<mapsto> 1]"]
  have 1: "\<exists>scores. compute_cosine_similarity [1] [(7, 2), (9, 1)] [7 \<mapsto> 4, 9 \<mapsto> 1] = Inr scores"
    by blast
  have split: "[(7::int, 2::real), (9, 1)] = [(7, 2)] @ (9, 1) # []" by simp
  have p2: "\<forall>x\<in>fst ` set [(7::int, 2::real)]. \<exists>n. [7 \<mapsto> 4::real] x = Some n \<and> 0 < n"
    by simp
  have p3: "\<forall>x\<in>fst ` set [(7::int, 2::real)]. \<exists>n. [7 \<mapsto> 4, 9 \<mapsto> 0::real] x = Some n \<and> 0 < n"
    by simp
  have q: "[1::int] \<noteq> []" by simp
  have n2: "[7 \<mapsto> 4::real] (9::int) = None" by simp
  have n3: "[7 \<mapsto> 4, 9 \<mapsto> 0::real] (9::int) = Some 0" by simp
  from cosine_similarity_no_exclusion[OF d, of "[1]" "[7 \<mapsto> 4]"] split q p2 n2
  have 2: "compute_cosine_similarity [1] [(7, 2), (9, 1)] [7 \<mapsto> 4] = Inl KeyError"
    by blast
  from cosine_similarity_no_exclusion[OF d, of "[1]" "[7 \<mapsto> 4, 9 \<mapsto> 0]"] split q p3 n3
  have 3: "compute_cosine_similarity [1] [(7, 2), (9, 1)] [7 \<mapsto> 4, 9 \<mapsto> 0] = Inl ZeroDivisionError"
    by blast
  from 1 2 3 show ?thesis by blast
qed

text \<open>
  A single candidate: with a stored norm of zero the division is reached with a zero
  divisor and raises; without a stored norm the lookup raises.
\<close>

lemma degenerate_norm_direct:
  "compute_cosine_similarity [1] [(7, 0)] [7 \<mapsto> 0] = Inl ZeroDivisionError \<and>
   compute_cosine_similarity [1] [(7, 0)] Map.empty = Inl KeyError"
  by (simp add: compute_cosine_similarity_def cos_similarity_def py_sqrt_def py_div_def)

lemma compute_cosine_similarity_Inr:
  assumes "distinct (map fst docs_scores)"
    and "compute_cosine_similarity encoded_query docs_scores squared_tfidf_per_document
           = Inr scores"
  shows "scores = map (\<lambda>(d, s). (d, s / (sqrt (the (squared_tfidf_per_document d)) *
                                          sqrt (real (length encoded_query))))) docs_scores"
    and "\<forall>d\<in>fst ` set docs_scores. \<exists>n. squared_tfidf_per_document d = Some n \<and> 0 < n"
proof -
  let ?f = "\<lambda>d. (d, projr (cos_similarity encoded_query docs_scores squared_tfidf_per_document d))"
  from cosine_loop_Inr[OF assms(2)[unfolded compute_cosine_similarity_def]] assms(1)
  have ok: "\<forall>d\<in>set (map fst docs_scores).
        \<exists>c. cos_similarity encoded_query docs_scores squared_tfidf_per_document d = Inr c"
    and sc: "scores = map ?f (map fst docs_scores)"
    by simp_all
  from ok show "\<forall>d\<in>fst ` set docs_scores. \<exists>n. squared_tfidf_per_document d = Some n \<and> 0 < n"
    by (auto simp: cos_similarity_Inr)
  have "map ?f (map fst docs_scores) =
      map (\<lambda>(d, s). (d, s / (sqrt (the (squared_tfidf_per_document d)) *
                               sqrt (real (length encoded_query))))) docs_scores"
    unfolding map_map
  proof (rule map_cong[OF refl])
    fix x assume x: "x \<in> set docs_scores"
    obtain d s where ds: "x = (d, s)" by (cases x)
    with x assms(1) have m: "map_of docs_scores d = Some s" by simp
    from ok x ds obtain c where
      c: "cos_similarity encoded_query docs_scores squared_tfidf_per_document d = Inr c"
      by force
    from c[unfolded cos_similarity_Inr] m
    have "c = s / (sqrt (the (squared_tfidf_per_document d)) * sqrt (real (length encoded_query)))"
      by auto
    with c show "(?f \<circ> fst) x = (case x of (d, s) \<Rightarrow>
        (d, s / (sqrt (the (squared_tfidf_per_document d)) * sqrt (real (length encoded_query)))))"
      by (simp add: ds)
  qed
  with sc show "scores = map (\<lambda>(d, s). (d, s / (sqrt (the (squared_tfidf_per_document d)) *
                                          sqrt (real (length encoded_query))))) docs_scores"
    by simp
qed

lemma map_of_map_entry:
  "distinct (map fst ds) \<Longrightarrow> (d, s) \<in> set ds \<Longrightarrow>
   map_of (map (\<lambda>(d, s). (d, f d s)) ds) d = Some (f d s)"
  by (induction ds) (auto simp: rev_image_eqI)

text \<open>
  Claim C4, as amended. When \<^verbatim>\<open>compute_cosine_similarity\<close> returns, the similarity
  of every candidate \<open>d\<close> with accumulated score \<open>s\<close> and stored norm \<open>n\<close> is
  \<open>s / (sqrt n * sqrt q)\<close> where \<open>q\<close> is the length of the encoded query, repeated
  terms counted as often as they occur. When no term is repeated, \<open>q\<close> is the number
  of distinct terms.
\<close>

theorem cosine_similarity_formula:
  assumes "distinct (map fst docs_scores)"
    and "compute_cosine_similarity encoded_query docs_scores squared_tfidf_per_document
           = Inr scores"
  shows "(\<forall>(d, s)\<in>set docs_scores. \<exists>n. squared_tfidf_per_document d = Some n \<and> 0 < n \<and>
            map_of scores d = Some (s / (sqrt n * sqrt (real (length encoded_query))))) \<and>
         (distinct encoded_query \<longrightarrow>
          (\<forall>(d, s)\<in>set docs_scores. \<exists>n. squared_tfidf_per_document d = Some n \<and> 0 < n \<and>
            map_of scores d = Some (s / (sqrt n * sqrt (real (card (set encoded_query)))))))"
proof -
  note r = compute_cosine_similarity_Inr[OF assms]
  have main: "\<forall>(d, s)\<in>set docs_scores. \<exists>n. squared_tfidf_per_document d = Some n \<and> 0 < n \<and>
            map_of scores d = Some (s / (sqrt n * sqrt (real (length encoded_query))))"
  proof (intro ballI, clarify)
    fix d s assume ds: "(d, s) \<in> set docs_scores"
    then have "d \<in> fst ` set docs_scores" by force
    with r(2) obtain n where n: "squared_tfidf_per_document d = Some n" "0 < n" by blast
    have "map_of scores d = Some (s / (sqrt (the (squared_tfidf_per_document d)) *
                                          sqrt (real (length encoded_query))))"
      unfolding r(1) using assms(1) ds by (rule map_of_map_entry)
    with n show "\<exists>n. squared_tfidf_per_document d = Some n \<and> 0 < n \<and>
            map_of scores d = Some (s / (sqrt n * sqrt (real (length encoded_query))))"
      by simp
  qed
  then show ?thesis by (simp add: distinct_card)
qed

theorem cosine_similarity_formula_witness:
  "compute_cosine_similarity [1, 2] [(7, 2)] [7 \<mapsto> 4] = Inr [(7, 1 / sqrt 2)] \<and>
   (\<exists>n. [7 \<mapsto> 4 :: real] (7 :: int) = Some n \<and> 0 < n \<and>
      map_of [(7 :: int, 1 / sqrt 2)] 7 = Some (2 / (sqrt n * sqrt (real (length [1, 2 :: int])))))"
proof -
  have d: "distinct (map fst [(7::int, 2::real)])" by simp
  have r: "compute_cosine_similarity [1, 2] [(7, 2)] [7 \<mapsto> 4] = Inr [(7, 1 / sqrt 2)]"
    by (simp add: compute_cosine_similarity_def cos_similarity_def py_sqrt_def py_div_def)
  from cosine_similarity_formula[OF d r] r show ?thesis by simp
qed

text \<open>
  Claim C4 as stated fails on a query with a repeated term: \<^verbatim>\<open>encode_query\<close> keeps
  both occurrences and \<^verbatim>\<open>len(encoded_query)\<close> counts both, so the divisor has
  \<open>sqrt 2\<close> where the number of distinct terms is 1.
\<close>

theorem distinct_query_terms_counterexample:
  "compute_cosine_similarity [1, 1] [(7, 2)] [7 \<mapsto> 4]
     \<noteq> Inr [(7, 2 / (sqrt 4 * sqrt (real (card (set [1, 1 :: int])))))] \<and>
   compute_cosine_similarity [1, 1] [(7, 2)] [7 \<mapsto> 4]
     = Inr [(7, 2 / (sqrt 4 * sqrt (real (length [1, 1 :: int]))))]"
proof -
  have "sqrt 2 \<noteq> 1" by simp
  then show ?thesis
    by (simp add: compute_cosine_similarity_def cos_similarity_def py_sqrt_def py_div_def)
qed

section \<open>\<^verbatim>\<open>search_engine_2\<close>\<close>

text \<open>
  The \<^verbatim>\<open>while\<close> loop of \<^verbatim>\<open>search_engine_2\<close>: the same cursors over lists of
  (document, tf-idf) pairs; a document under every cursor gets the sum of its tf-idf
  scores in \<open>docs_scores\<close>.
\<close>

function weighted_while ::
  "(doc \<times> real) list list \<Rightarrow> nat list \<Rightarrow> (doc \<times> real) list \<Rightarrow> error + (doc \<times> real) list" where
  "weighted_while selected_lists idx docs_scores =
     (if cursors_in_range idx (map length selected_lists) then
        (if length idx < length selected_lists then Inl IndexError
         else
           (case py_max (map fst (pointed idx selected_lists)) of
              Inl e \<Rightarrow> Inl e
            | Inr max_num \<Rightarrow>
                if list_all (\<lambda>d. d = max_num) (map fst (pointed idx selected_lists))
                then weighted_while selected_lists (map (\<lambda>i. i + 1) idx)
                       (AList.update max_num (sum_list (map snd (pointed idx selected_lists)))
                          docs_scores)
                else weighted_while selected_lists
                       (advance_lagging fst max_num selected_lists idx) docs_scores))
      else Inr docs_scores)"
  by pat_completeness auto
termination
proof (relation "measure (\<lambda>(selected_lists, idx, docs_scores). remaining selected_lists idx)")
  show "wf (measure (\<lambda>(selected_lists, idx, docs_scores). remaining selected_lists idx))"
    by simp
next
  fix selected_lists :: "(doc \<times> real) list list" and idx and docs_scores :: "(doc \<times> real) list"
    and max_num
  assume "cursors_in_range idx (map length selected_lists)"
    "\<not> length idx < length selected_lists"
    "py_max (map fst (pointed idx selected_lists)) = Inr max_num"
  moreover from this have "selected_lists \<noteq> []"
    by (auto simp: pointed_def dest: py_max_Inr)
  ultimately show "((selected_lists, map (\<lambda>i. i + 1) idx,
        AList.update max_num (sum_list (map snd (pointed idx selected_lists))) docs_scores),
      (selected_lists, idx, docs_scores))
    \<in> measure (\<lambda>(selected_lists, idx, docs_scores). remaining selected_lists idx)"
    using remaining_all_advance[of idx selected_lists] by simp
next
  fix selected_lists :: "(doc \<times> real) list list" and idx and docs_scores :: "(doc \<times> real) list"
    and max_num
  assume "cursors_in_range idx (map length selected_lists)"
    "\<not> length idx < length selected_lists"
    "\<not> list_all (\<lambda>d. d = max_num) (map fst (pointed idx selected_lists))"
  then show "((selected_lists, advance_lagging fst max_num selected_lists idx, docs_scores),
      (selected_lists, idx, docs_scores))
    \<in> measure (\<lambda>(selected_lists, idx, docs_scores). remaining selected_lists idx)"
    using remaining_lagging_advance[of idx selected_lists max_num fst] by simp
qed

declare weighted_while.simps [simp del]

text \<open>
  \<^verbatim>\<open>
  result = []; docs_scores = {}
  if not encoded_query: return result
  else:
      ... the loop ...
      all_scores = compute_cosine_similarity(encoded_query, docs_scores, squared_tfidf_per_document)
      return get_top_k(all_scores, k)
  \<close>
\<close>

definition search_engine_2 ::
  "token list option \<Rightarrow> (token \<rightharpoonup> (doc \<times> real) list) \<Rightarrow> (doc \<rightharpoonup> real) \<Rightarrow> int
     \<Rightarrow> error + (doc \<times> real) list" where
  "search_engine_2 encoded_query inverted_idx2 squared_tfidf_per_document k =
     (if py_not encoded_query then Inr []
      else
        (case select_lists inverted_idx2 (the encoded_query) of
           Inl e \<Rightarrow> Inl e
         | Inr selected_lists \<Rightarrow>
             (case weighted_while selected_lists (replicate (length selected_lists) 0) [] of
                Inl e \<Rightarrow> Inl e
              | Inr docs_scores \<Rightarrow>
                  (case compute_cosine_similarity (the encoded_query) docs_scores
                          squared_tfidf_per_document of
                     Inl e \<Rightarrow> Inl e
                   | Inr all_scores \<Rightarrow> Inr (get_top_k all_scores k)))))"

section \<open>\<^verbatim>\<open>search_engine_3\<close>\<close>

text \<open>The positions of the additional fields in the \<^verbatim>\<open>.tsv\<close> files.\<close>

definition field_to_idx :: "string \<rightharpoonup> nat" where
  "field_to_idx =
     [''booktitle'' \<mapsto> 0, ''bookseries'' \<mapsto> 1, ''bookauthors'' \<mapsto> 2,
      ''publishingdate'' \<mapsto> 8, ''characters'' \<mapsto> 9, ''setting'' \<mapsto> 10]"

text \<open>
  \<^verbatim>\<open>
  for item in additional_info:
      if item[1] in all_fields[field_to_idx[item[0]]]:
          total_score += total_score * 1/2
  \<close>
  An item is what \<^verbatim>\<open>info.split(':')\<close> returned for a line of the prompt, a list of
  strings. The fields of a document went through \<^verbatim>\<open>preprocess_text\<close>, which is not
  part of this module: the type \<open>'f\<close> of a preprocessed field and Python's \<^verbatim>\<open>in\<close>
  on it, \<open>py_in\<close>, are parameters. \<^verbatim>\<open>item[1]\<close> is read first and raises
  \<^verbatim>\<open>IndexError\<close> on an item without a colon.
\<close>

fun adjust_score ::
  "(string \<Rightarrow> 'f \<Rightarrow> bool) \<Rightarrow> 'f list \<Rightarrow> string list list \<Rightarrow> real \<Rightarrow> error + real" where
  "adjust_score py_in all_fields [] total_score = Inr total_score"
| "adjust_score py_in all_fields (item # additional_info) total_score =
     (if length item < 2 then Inl IndexError
      else
        (case field_to_idx (item ! 0) of
           None \<Rightarrow> Inl KeyError
         | Some i \<Rightarrow>
             if length all_fields \<le> i then Inl IndexError
             else adjust_score py_in all_fields additional_info
                    (if py_in (item ! 1) (all_fields ! i)
                     then total_score + total_score * 1 / 2
                     else total_score)))"

text \<open>
  \<^verbatim>\<open>
  final_score = {}
  for doc, score in plot_result:
      total_score = score
      with open(...) as f:
          all_fields = f.readlines()[2].split('\t')
          all_fields = [preprocess_text(field) for field in all_fields]
          ... the loop over additional_info ...
      final_score[doc] = total_score
  \<close>
  \<open>read_fields\<close> stands for the file access: the preprocessed fields of a document,
  or the exception raised on the way.
\<close>

fun refine_loop ::
  "(string \<Rightarrow> 'f \<Rightarrow> bool) \<Rightarrow> (doc \<Rightarrow> error + 'f list) \<Rightarrow> string list list
     \<Rightarrow> (doc \<times> real) list \<Rightarrow> (doc \<times> real) list \<Rightarrow> error + (doc \<times> real) list" where
  "refine_loop py_in read_fields additional_info [] final_score = Inr final_score"
| "refine_loop py_in read_fields additional_info ((d, score) # plot_result) final_score =
     (case read_fields d of
        Inl e \<Rightarrow> Inl e
      | Inr all_fields \<Rightarrow>
          (case adjust_score py_in all_fields additional_info score of
             Inl e \<Rightarrow> Inl e
           | Inr total_score \<Rightarrow>
               refine_loop py_in read_fields additional_info plot_result
                 (AList.update d total_score final_score)))"

text \<open>
  \<^verbatim>\<open>search_engine_3\<close>: \<open>additional_info\<close> is the list the prompt loop has collected
  when the user types \<^verbatim>\<open>end\<close>. The parameter \<^verbatim>\<open>uncoded_query\<close> is never read.
\<close>

definition search_engine_3 ::
  "(string \<Rightarrow> 'f \<Rightarrow> bool) \<Rightarrow> (doc \<Rightarrow> error + 'f list) \<Rightarrow> string list list
     \<Rightarrow> token list option \<Rightarrow> (token \<rightharpoonup> (doc \<times> real) list) \<Rightarrow> (doc \<rightharpoonup> real)
     \<Rightarrow> error + (doc \<times> real) list" where
  "search_engine_3 py_in read_fields additional_info encoded_query inverted_idx2
       squared_tfidf_per_document =
     (case search_engine_2 encoded_query inverted_idx2 squared_tfidf_per_document 10 of
        Inl e \<Rightarrow> Inl e
      | Inr plot_result \<Rightarrow>
          (case refine_loop py_in read_fields additional_info plot_result [] of
             Inl e \<Rightarrow> Inl e
           | Inr final_score \<Rightarrow> Inr (get_top_k final_score 3)))"

text \<open>
  A criterion is well formed for a document when reading it raises nothing; it matches
  when, moreover, its value is found in the field it names.
\<close>

definition criterion_ok :: "'f list \<Rightarrow> string list \<Rightarrow> bool" where
  "criterion_ok all_fields item =
     (2 \<le> length item \<and>
      (case field_to_idx (item ! 0) of None \<Rightarrow> False | Some i \<Rightarrow> i < length all_fields))"

definition criterion_matches :: "(string \<Rightarrow> 'f \<Rightarrow> bool) \<Rightarrow> 'f list \<Rightarrow> string list \<Rightarrow> bool" where
  "criterion_matches py_in all_fields item =
     (2 \<le> length item \<and>
      (case field_to_idx (item ! 0) of
         None \<Rightarrow> False
       | Some i \<Rightarrow> i < length all_fields \<and> py_in (item ! 1) (all_fields ! i)))"

subsection \<open>The refined score\<close>

lemma adjust_score_ok:
  "list_all (criterion_ok all_fields) additional_info \<Longrightarrow>
   adjust_score py_in all_fields additional_info s =
     Inr (s * (3 / 2) ^ length (filter (criterion_matches py_in all_fields) additional_info))"
proof (induction additional_info arbitrary: s)
  case Nil
  show ?case by simp
next
  case (Cons item additional_info)
  from Cons.prems obtain i where i: "2 \<le> length item" "field_to_idx (item ! 0) = Some i"
      "i < length all_fields"
    by (auto simp: criterion_ok_def split: option.splits)
  have rest: "list_all (criterion_ok all_fields) additional_info" using Cons.prems by simp
  show ?case
  proof (cases "py_in (item ! 1) (all_fields ! i)")
    case True
    then have m: "criterion_matches py_in all_fields item"
      using i by (simp add: criterion_matches_def)
    have e: "s + s * 1 / 2 = s * (3 / 2)" by simp
    have "adjust_score py_in all_fields (item # additional_info) s =
        adjust_score py_in all_fields additional_info (s + s * 1 / 2)"
      using True i by simp
    also have "\<dots> = adjust_score py_in all_fields additional_info (s * (3 / 2))"
      by (simp only: e)
    also have "\<dots> = Inr (s * (3 / 2) *
        (3 / 2) ^ length (filter (criterion_matches py_in all_fields) additional_info))"
      by (rule Cons.IH[OF rest])
    also have "\<dots> = Inr (s *
        (3 / 2) ^ length (filter (criterion_matches py_in all_fields) (item # additional_info)))"
      using m by simp
    finally show ?thesis .
  next
    case False
    then have m: "\<not> criterion_matches py_in all_fields item"
      using i by (simp add: criterion_matches_def)
    with False i Cons.IH[OF rest, of s] show ?thesis by simp
  qed
qed

lemma criterion_matches_ok: "criterion_matches py_in all_fields item \<Longrightarrow> criterion_ok all_fields item"
  by (auto simp: criterion_matches_def criterion_ok_def split: option.splits)

lemma refine_loop_ok:
  assumes "distinct (map fst plot_result)" "fst ` set plot_result \<inter> fst ` set acc = {}"
    and "\<forall>(d, s)\<in>set plot_result. \<exists>all_fields. read_fields d = Inr all_fields \<and>
           adjust_score py_in all_fields additional_info s = Inr (g d s)"
  shows "refine_loop py_in read_fields additional_info plot_result acc =
     Inr (acc @ map (\<lambda>(d, s). (d, g d s)) plot_result)"
  using assms
proof (induction plot_result arbitrary: acc)
  case Nil
  show ?case by simp
next
  case (Cons x plot_result)
  obtain d s where x: "x = (d, s)" by (cases x)
  from Cons.prems(3) x obtain all_fields where f: "read_fields d = Inr all_fields"
    "adjust_score py_in all_fields additional_info s = Inr (g d s)" by auto
  have fresh: "d \<notin> fst ` set acc" using Cons.prems(2) x by auto
  have upd: "AList.update d (g d s) acc = acc @ [(d, g d s)]"
    using fresh by (rule update_fresh)
  have disj: "fst ` set plot_result \<inter> fst ` set (AList.update d (g d s) acc) = {}"
    using Cons.prems(1,2) x by (auto simp: upd)
  have "refine_loop py_in read_fields additional_info plot_result (AList.update d (g d s) acc) =
     Inr (AList.update d (g d s) acc @ map (\<lambda>(d, s). (d, g d s)) plot_result)"
    using Cons.prems(1,3) disj by (intro Cons.IH) simp_all
  with f show ?case by (simp add: x upd)
qed

text \<open>
  The candidates \<^verbatim>\<open>search_engine_2\<close> returns are the items of a dictionary: no
  document occurs twice.
\<close>

lemma weighted_while_distinct:
  "distinct (map fst docs_scores) \<Longrightarrow> weighted_while ls idx docs_scores = Inr r \<Longrightarrow>
   distinct (map fst r)"
proof (induction ls idx docs_scores rule: weighted_while.induct)
  case (1 ls idx docs_scores)
  show ?case
  proof (cases "cursors_in_range idx (map length ls)")
    case False
    with "1.prems" show ?thesis by (subst (asm) weighted_while.simps) simp
  next
    case True
    from "1.prems"(2) True have len: "\<not> length idx < length ls"
      by (subst (asm) weighted_while.simps) (auto split: if_splits)
    from "1.prems"(2) True len obtain m where pm: "py_max (map fst (pointed idx ls)) = Inr m"
      by (subst (asm) weighted_while.simps) (auto split: sum.splits)
    show ?thesis
    proof (cases "list_all (\<lambda>d. d = m) (map fst (pointed idx ls))")
      case all: True
      from "1.prems"(2) True len pm all
      have run: "weighted_while ls (map (\<lambda>i. i + 1) idx)
          (AList.update m (sum_list (map snd (pointed idx ls))) docs_scores) = Inr r"
        by (subst (asm) weighted_while.simps) simp
      have "distinct (map fst (AList.update m (sum_list (map snd (pointed idx ls))) docs_scores))"
        using "1.prems"(1) by (rule distinct_update)
      from "1.IH"(1)[OF True len pm all this run] show ?thesis .
    next
      case nall: False
      from "1.prems"(2) True len pm nall
      have run: "weighted_while ls (advance_lagging fst m ls idx) docs_scores = Inr r"
        by (subst (asm) weighted_while.simps) simp
      from "1.IH"(2)[OF True len pm nall "1.prems"(1) run] show ?thesis .
    qed
  qed
qed

lemma cosine_loop_distinct:
  "distinct (map fst acc) \<Longrightarrow> cosine_loop q ds sq docs acc = Inr r \<Longrightarrow> distinct (map fst r)"
  by (induction docs arbitrary: acc) (auto split: sum.splits intro: distinct_update)

lemma get_top_k_distinct:
  assumes "distinct (map fst dic)"
  shows "distinct (map fst (get_top_k dic k))"
proof -
  let ?heap = "map (\<lambda>(key, v). (- v, key)) dic"
  have "map fst (get_top_k dic k) = take (nat k) (map snd (sort ?heap))"
    by (simp add: get_top_k_def nsmallest_def take_map comp_def case_prod_unfold)
  moreover have "map snd ?heap = map fst dic"
    by (simp add: comp_def case_prod_unfold)
  then have "mset (map snd (sort ?heap)) = mset (map fst dic)"
    by (metis mset_map mset_sort)
  then have "distinct (map snd (sort ?heap))"
    using assms by (metis mset_eq_imp_distinct_iff)
  ultimately show ?thesis by simp
qed

lemma search_engine_2_distinct:
  assumes "search_engine_2 encoded_query inverted_idx2 sq k = Inr r"
  shows "distinct (map fst r)"
proof (cases "py_not encoded_query")
  case True
  with assms show ?thesis by (simp add: search_engine_2_def)
next
  case False
  with assms obtain ls docs_scores all_scores where
    w: "weighted_while ls (replicate (length ls) 0) [] = Inr docs_scores"
    and c: "compute_cosine_similarity (the encoded_query) docs_scores sq = Inr all_scores"
    and r: "r = get_top_k all_scores k"
    by (auto simp: search_engine_2_def split: sum.splits)
  from weighted_while_distinct[OF _ w] have "distinct (map fst docs_scores)" by simp
  from cosine_loop_distinct[OF _ c[unfolded compute_cosine_similarity_def]]
  have "distinct (map fst all_scores)" by simp
  then show ?thesis unfolding r by (rule get_top_k_distinct)
qed

text \<open>
  Claim C7. Let \<^verbatim>\<open>search_engine_2\<close> return the candidates \<open>plot_result\<close>, each with
  its cosine score \<open>s\<close>, and let the criteria raise nothing on the fields of the
  candidates. Then \<^verbatim>\<open>search_engine_3\<close> returns the top 3 of the refined scores, and
  the refined score it stores in \<^verbatim>\<open>final_score\<close> for a candidate is \<open>s * 1.5 ^ m\<close>,
  where \<open>m\<close> is the number of criteria that match that candidate: every matching
  criterion multiplies the running score by 1.5, the others leave it unchanged. When
  all the criteria match every candidate, \<open>m\<close> is the length of the list of criteria.
  With \<open>s = 1\<close>, one match gives 1.5 and two give 2.25.
\<close>

theorem refinement_compounds:
  assumes plot: "search_engine_2 encoded_query inverted_idx2 squared_tfidf_per_document 10
                   = Inr plot_result"
    and ok: "\<forall>(d, s)\<in>set plot_result. \<exists>all_fields. read_fields d = Inr all_fields \<and>
               list_all (criterion_ok all_fields) additional_info"
  shows "search_engine_3 py_in read_fields additional_info encoded_query inverted_idx2
           squared_tfidf_per_document =
         Inr (get_top_k
                (map (\<lambda>(d, s). (d, s * (3 / 2) ^
                        length (filter (criterion_matches py_in (projr (read_fields d)))
                                  additional_info)))
                     plot_result) 3) \<and>
         refine_loop py_in read_fields additional_info plot_result [] =
         Inr (map (\<lambda>(d, s). (d, s * (3 / 2) ^
                        length (filter (criterion_matches py_in (projr (read_fields d)))
                                  additional_info)))
                  plot_result) \<and>
         ((\<forall>(d, s)\<in>set plot_result.
              list_all (criterion_matches py_in (projr (read_fields d))) additional_info) \<longrightarrow>
          search_engine_3 py_in read_fields additional_info encoded_query inverted_idx2
            squared_tfidf_per_document =
          Inr (get_top_k (map (\<lambda>(d, s). (d, s * (3 / 2) ^ length additional_info)) plot_result) 3))"
proof -
  let ?m = "\<lambda>d. length (filter (criterion_matches py_in (projr (read_fields d))) additional_info)"
  let ?g = "\<lambda>d s. s * (3 / 2) ^ ?m d"
  have dist: "distinct (map fst plot_result)"
    using plot by (rule search_engine_2_distinct)
  have "refine_loop py_in read_fields additional_info plot_result [] =
      Inr ([] @ map (\<lambda>(d, s). (d, ?g d s)) plot_result)"
  proof (rule refine_loop_ok)
    show "distinct (map fst plot_result)" by fact
    show "fst ` set plot_result \<inter> fst ` set [] = {}" by simp
    show "\<forall>(d, s)\<in>set plot_result. \<exists>all_fields. read_fields d = Inr all_fields \<and>
           adjust_score py_in all_fields additional_info s = Inr (?g d s)"
    proof (intro ballI, clarify)
      fix d s assume "(d, s) \<in> set plot_result"
      with ok obtain all_fields where f: "read_fields d = Inr all_fields"
        "list_all (criterion_ok all_fields) additional_info" by fast
      from adjust_score_ok[OF f(2), of py_in s] f(1)
      show "\<exists>all_fields. read_fields d = Inr all_fields \<and>
           adjust_score py_in all_fields additional_info s = Inr (?g d s)"
        by simp
    qed
  qed
  then have loop: "refine_loop py_in read_fields additional_info plot_result [] =
      Inr (map (\<lambda>(d, s). (d, ?g d s)) plot_result)" by simp
  then have run: "search_engine_3 py_in read_fields additional_info encoded_query inverted_idx2
           squared_tfidf_per_document = Inr (get_top_k (map (\<lambda>(d, s). (d, ?g d s)) plot_result) 3)"
    using plot by (simp add: search_engine_3_def)
  have allm: "search_engine_3 py_in read_fields additional_info encoded_query inverted_idx2
            squared_tfidf_per_document =
          Inr (get_top_k (map (\<lambda>(d, s). (d, s * (3 / 2) ^ length additional_info)) plot_result) 3)"
    if m: "\<forall>(d, s)\<in>set plot_result.
              list_all (criterion_matches py_in (projr (read_fields d))) additional_info"
  proof -
    have "map (\<lambda>(d, s). (d, ?g d s)) plot_result =
          map (\<lambda>(d, s). (d, s * (3 / 2) ^ length additional_info)) plot_result"
    proof (rule map_cong[OF refl])
      fix x assume x: "x \<in> set plot_result"
      obtain d s where ds: "x = (d, s)" by (cases x)
      with m x have "list_all (criterion_matches py_in (projr (read_fields d))) additional_info"
        by fast
      then have "filter (criterion_matches py_in (projr (read_fields d))) additional_info
          = additional_info"
        by (simp add: list_all_iff)
      then show "(case x of (d, s) \<Rightarrow> (d, ?g d s)) =
          (case x of (d, s) \<Rightarrow> (d, s * (3 / 2) ^ length additional_info))"
        by (simp add: ds)
    qed
    with run show ?thesis by simp
  qed
  show ?thesis
    by (rule conjI[OF run conjI[OF loop impI[OF allm]]])
qed

theorem refinement_compounds_witness:
  "search_engine_3 (\<lambda>s f. s \<in> set f)
     (\<lambda>d. if d = 7 then Inr [[''dune''], [], [], [], [], [], [], [], [], [], [''arrakis'']]
           else Inr [[''emma''], [], [], [], [], [], [], [], [], [], [''surrey'']])
     [[''booktitle'', ''dune'']]
     (Some [1]) [1 \<mapsto> [(7, 2), (8, 2)]] [7 \<mapsto> 4, 8 \<mapsto> 4] = Inr [(7, 3 / 2), (8, 1)] \<and>
   search_engine_3 (\<lambda>s f. s \<in> set f)
     (\<lambda>d. if d = 7 then Inr [[''dune''], [], [], [], [], [], [], [], [], [], [''arrakis'']]
           else Inr [[''emma''], [], [], [], [], [], [], [], [], [], [''surrey'']])
     [[''booktitle'', ''dune''], [''setting'', ''arrakis'']]
     (Some [1]) [1 \<mapsto> [(7, 2), (8, 2)]] [7 \<mapsto> 4, 8 \<mapsto> 4] = Inr [(7, 9 / 4), (8, 1)]"
proof -
  let ?in = "\<lambda>(s :: string) f. s \<in> set f"
  let ?rd = "\<lambda>d :: int. if d = 7
      then Inr [[''dune''], [], [], [], [], [], [], [], [], [], [''arrakis'']]
      else (Inr [[''emma''], [], [], [], [], [], [], [], [], [], [''surrey'']] :: error + string list list)"
  let ?idx = "[1 \<mapsto> [(7, 2), (8, 2)]] :: int \<rightharpoonup> (int \<times> real) list"
  let ?sq = "[7 \<mapsto> 4, 8 \<mapsto> 4] :: int \<rightharpoonup> real"
  have plot: "search_engine_2 (Some [1]) ?idx ?sq 10 = Inr [(7, 1), (8, 1)]"
    by (simp add: search_engine_2_def py_not_def weighted_while.simps cursors_in_range_def
        pointed_def compute_cosine_similarity_def cos_similarity_def py_sqrt_def py_div_def
        get_top_k_def nsmallest_def)
  have ok1: "\<forall>(d, s)\<in>set [(7 :: int, 1 :: real), (8, 1)]. \<exists>all_fields. ?rd d = Inr all_fields \<and>
               list_all (criterion_ok all_fields) [[''booktitle'', ''dune'']]"
    by (simp add: criterion_ok_def field_to_idx_def)
  have ok2: "\<forall>(d, s)\<in>set [(7 :: int, 1 :: real), (8, 1)]. \<exists>all_fields. ?rd d = Inr all_fields \<and>
               list_all (criterion_ok all_fields)
                 [[''booktitle'', ''dune''], [''setting'', ''arrakis'']]"
    by (simp add: criterion_ok_def field_to_idx_def)
  have a: "search_engine_3 ?in ?rd [[''booktitle'', ''dune'']] (Some [1]) ?idx ?sq
      = Inr [(7, 3 / 2), (8, 1)]"
    using refinement_compounds[OF plot ok1, of ?in, THEN conjunct1]
    by (simp add: criterion_matches_def field_to_idx_def get_top_k_def nsmallest_def)
  have b: "search_engine_3 ?in ?rd [[''booktitle'', ''dune''], [''setting'', ''arrakis'']]
      (Some [1]) ?idx ?sq = Inr [(7, 9 / 4), (8, 1)]"
    using refinement_compounds[OF plot ok2, of ?in, THEN conjunct1]
    by (simp add: criterion_matches_def field_to_idx_def get_top_k_def nsmallest_def
        power2_eq_square)
  from a b show ?thesis by (rule conjI)
qed

section \<open>Storing the data\<close>

text \<open>
  The folder of encoded files is a list of files in the order \<^verbatim>\<open>os.listdir\<close> yields
  them. A file \<^verbatim>\<open>n.pickle\<close> is the pair of the number \<open>n\<close> in its name and the
  dictionary \<^verbatim>\<open>dict_repr\<close> it holds, from encoded words to their frequency in the
  document. \<^verbatim>\<open>sorted(file_list, key=...)\<close> orders the files by that number.
\<close>

type_synonym encoded_file = "doc \<times> (token \<times> int) list"

text \<open>\<^verbatim>\<open>inverted_idx.setdefault(key, []).append(x)\<close>\<close>

definition setdefault_append :: "'k \<Rightarrow> 'v \<Rightarrow> ('k \<times> 'v list) list \<Rightarrow> ('k \<times> 'v list) list" where
  "setdefault_append key x inverted_idx =
     (case map_of inverted_idx key of
        None \<Rightarrow> inverted_idx @ [(key, [x])]
      | Some docs \<Rightarrow> AList.update key (docs @ [x]) inverted_idx)"

subsection \<open>\<^verbatim>\<open>create_inverted_idx\<close>\<close>

text \<open>
  \<^verbatim>\<open>
  for file_name in file_list:
      dict_repr = pickle.load(f)
      for key in dict_repr:
          inverted_idx.setdefault(key, []).append(int(file_name[:-7]))
  \<close>
  The function stores the index in a file and returns nothing; the model returns the
  index.
\<close>

definition add_file :: "encoded_file \<Rightarrow> (token \<times> doc list) list \<Rightarrow> (token \<times> doc list) list" where
  "add_file file inverted_idx =
     fold (\<lambda>key inverted_idx. setdefault_append key (fst file) inverted_idx)
          (map fst (snd file)) inverted_idx"

definition create_inverted_idx :: "encoded_file list \<Rightarrow> (token \<times> doc list) list" where
  "create_inverted_idx file_list = fold add_file (sort_key fst file_list) []"

subsection \<open>\<^verbatim>\<open>create_inverted_idx_2\<close>\<close>

text \<open>
  \<^verbatim>\<open>
  docs_count = 0
  for file_name in file_list:
      docs_count += 1
      dict_repr = pickle.load(f)
      for key in dict_repr:
          inverted_idx2.setdefault(key, []).append((int(file_name[:-7]), dict_repr[key]))
  \<close>
  The second component of a pair is an integer frequency here and a float after the
  second pass; the model holds it as a real number from the start.
\<close>

definition add_file_2 ::
  "encoded_file \<Rightarrow> (token \<times> (doc \<times> real) list) list \<times> nat
     \<Rightarrow> (token \<times> (doc \<times> real) list) list \<times> nat" where
  "add_file_2 file state =
     (fold (\<lambda>key inverted_idx2.
              setdefault_append key (fst file, real_of_int (the (map_of (snd file) key)))
                inverted_idx2)
           (map fst (snd file)) (fst state),
      snd state + 1)"

text \<open>
  \<^verbatim>\<open>
  for idx, value in enumerate(inverted_idx2[key]):
      inverted_idx2[key][idx] = (value[0], value[1] * math.log(docs_count / len(inverted_idx2[key])))
  \<close>
  The list is updated in place while it is enumerated: \<open>value\<close> is the entry at
  \<open>idx\<close> when the loop reaches it, and the length is read at every step.
\<close>

definition weigh_list :: "nat \<Rightarrow> (doc \<times> real) list \<Rightarrow> (doc \<times> real) list" where
  "weigh_list docs_count postings =
     fold (\<lambda>idx l. l[idx := (fst (l ! idx),
                              snd (l ! idx) * ln (real docs_count / real (length l)))])
          [0..<length postings] postings"

definition create_inverted_idx_2 :: "encoded_file list \<Rightarrow> (token \<times> (doc \<times> real) list) list" where
  "create_inverted_idx_2 file_list =
     (case fold add_file_2 (sort_key fst file_list) ([], 0) of
        (inverted_idx2, docs_count) \<Rightarrow>
          map (\<lambda>(key, postings). (key, weigh_list docs_count postings)) inverted_idx2)"

subsection \<open>\<^verbatim>\<open>store_squared_tfidf_per_document\<close>\<close>

text \<open>
  \<^verbatim>\<open>
  for term in inverted_idx2:
      for doc, tfidf in inverted_idx2[term]:
          squared_tfidfs.setdefault(doc, []).append(tfidf**2)
  for doc in squared_tfidfs:
      squared_tfidfs[doc] = sum(squared_tfidfs[doc])
  \<close>
\<close>

definition store_squared_tfidf_per_document ::
  "(token \<times> (doc \<times> real) list) list \<Rightarrow> (doc \<times> real) list" where
  "store_squared_tfidf_per_document inverted_idx2 =
     map (\<lambda>(d, squares). (d, sum_list squares))
       (fold (\<lambda>(t, postings) squared_tfidfs.
                fold (\<lambda>(d, tfidf) squared_tfidfs. setdefault_append d (tfidf ^ 2) squared_tfidfs)
                     postings squared_tfidfs)
             inverted_idx2 [])"

subsection \<open>What the indexes hold\<close>

text \<open>The list stored for a word in an index under construction, empty when there is none.\<close>

definition get_list :: "('k \<times> 'v list) list \<Rightarrow> 'k \<Rightarrow> 'v list" where
  "get_list inverted_idx t = (case map_of inverted_idx t of None \<Rightarrow> [] | Some l \<Rightarrow> l)"

text \<open>
  The inner loop of both builders, for one file: \<open>h\<close> is the value appended for a key,
  the document number in \<^verbatim>\<open>create_inverted_idx\<close> and the pair of the document number
  and the frequency in \<^verbatim>\<open>create_inverted_idx_2\<close>.
\<close>

definition add_entries ::
  "(encoded_file \<Rightarrow> token \<Rightarrow> 'v) \<Rightarrow> encoded_file \<Rightarrow> (token \<times> 'v list) list \<Rightarrow> (token \<times> 'v list) list" where
  "add_entries h file inverted_idx =
     fold (\<lambda>key inverted_idx. setdefault_append key (h file key) inverted_idx)
          (map fst (snd file)) inverted_idx"

text \<open>
  The occurrences of a word in a list of files: the pairs of a document number and the
  raw frequency of the word in that document, in the order of the files.
\<close>

definition occurrences :: "token \<Rightarrow> encoded_file list \<Rightarrow> (doc \<times> int) list" where
  "occurrences t files =
     concat (map (\<lambda>(d, dict_repr). map (\<lambda>(key, tf). (d, tf)) (filter (\<lambda>(key, tf). key = t) dict_repr))
                 files)"

lemma get_list_Nil: "get_list [] t = []"
  by (simp add: get_list_def)

lemma map_of_setdefault_append:
  "map_of (setdefault_append k x idx) = (map_of idx)(k \<mapsto> get_list idx k @ [x])"
  by (auto simp: setdefault_append_def get_list_def update_conv' map_add_def fun_eq_iff
      split: option.splits)

lemma fold_setdefault_append:
  "map_of (fold (\<lambda>key idx. setdefault_append key (g key) idx) keys idx) t =
     (if t \<in> set keys \<or> t \<in> dom (map_of idx)
      then Some (get_list idx t @ map g (filter (\<lambda>k. k = t) keys)) else None)"
proof (induction keys arbitrary: idx)
  case Nil
  show ?case by (auto simp: get_list_def)
next
  case (Cons k keys)
  show ?case
    by (simp add: Cons.IH map_of_setdefault_append get_list_def) auto
qed

lemma map_of_get_list: "map_of idx t = Some l \<longleftrightarrow> t \<in> dom (map_of idx) \<and> get_list idx t = l"
  by (auto simp: get_list_def)

lemma get_list_add_entries:
  "get_list (add_entries h f idx) t =
     get_list idx t @ map (h f) (filter (\<lambda>k. k = t) (map fst (snd f)))"
proof -
  have "t \<notin> set (map fst (snd f)) \<Longrightarrow> filter (\<lambda>k. k = t) (map fst (snd f)) = []"
    by (auto simp: filter_empty_conv)
  moreover have "t \<notin> dom (map_of idx) \<Longrightarrow> get_list idx t = []"
    by (simp add: get_list_def domIff)
  ultimately show ?thesis
    unfolding add_entries_def get_list_def[of "fold _ _ _"] fold_setdefault_append
    by (auto simp: domIff get_list_def split: option.splits)
qed

lemma dom_add_entries:
  "t \<in> dom (map_of (add_entries h f idx)) \<longleftrightarrow> t \<in> fst ` set (snd f) \<or> t \<in> dom (map_of idx)"
  unfolding add_entries_def by (auto simp: fold_setdefault_append domIff)

lemma get_list_fold_add_entries:
  "get_list (fold (add_entries h) fs idx) t =
     get_list idx t @
     concat (map (\<lambda>f. map (h f) (filter (\<lambda>k. k = t) (map fst (snd f)))) fs)"
  by (induction fs arbitrary: idx) (simp_all add: get_list_add_entries)

lemma dom_fold_add_entries:
  "t \<in> dom (map_of (fold (add_entries h) fs idx)) \<longleftrightarrow>
     (\<exists>f\<in>set fs. t \<in> fst ` set (snd f)) \<or> t \<in> dom (map_of idx)"
  by (induction fs arbitrary: idx) (auto simp: dom_add_entries)

lemma add_file_eq: "add_file = add_entries (\<lambda>file key. fst file)"
  by (simp add: fun_eq_iff add_file_def add_entries_def)

lemma fold_add_file_2:
  "fold add_file_2 fs (idx, n) =
     (fold (add_entries (\<lambda>file key. (fst file, real_of_int (the (map_of (snd file) key))))) fs idx,
      n + length fs)"
  by (induction fs arbitrary: idx n) (simp_all add: add_file_2_def add_entries_def)

lemma filter_key_distinct:
  "distinct ks \<Longrightarrow> filter (\<lambda>k. k = t) ks = (if t \<in> set ks then [t] else [])"
  by (induction ks) auto

lemma occurrences_of_file:
  assumes "distinct (map fst dict_repr)"
  shows "map (\<lambda>key. (d, real_of_int (the (map_of dict_repr key))))
           (filter (\<lambda>k. k = t) (map fst dict_repr)) =
         map (\<lambda>(d, tf). (d, real_of_int tf))
           (map (\<lambda>(key, tf). (d, tf)) (filter (\<lambda>(key, tf). key = t) dict_repr))"
proof -
  have "map (\<lambda>key. (d, real_of_int (the (map_of dict_repr key))))
           (filter (\<lambda>k. k = t) (map fst dict_repr)) =
        map ((\<lambda>key. (d, real_of_int (the (map_of dict_repr key)))) \<circ> fst)
           (filter (\<lambda>(key, tf). key = t) dict_repr)"
    by (simp add: filter_map comp_def case_prod_unfold)
  also have "\<dots> = map (\<lambda>(key, tf). (d, real_of_int tf)) (filter (\<lambda>(key, tf). key = t) dict_repr)"
    using assms by (intro map_cong) auto
  finally show ?thesis by (simp add: comp_def case_prod_beta)
qed

lemma raw_postings:
  assumes "\<forall>f\<in>set fs. distinct (map fst (snd f))"
  shows "concat (map (\<lambda>f. map (\<lambda>key. (fst f, real_of_int (the (map_of (snd f) key))))
                          (filter (\<lambda>k. k = t) (map fst (snd f)))) fs) =
         map (\<lambda>(d, tf). (d, real_of_int tf)) (occurrences t fs)"
  using assms
proof (induction fs)
  case Nil
  show ?case by (simp add: occurrences_def)
next
  case (Cons f fs)
  obtain d dr where f: "f = (d, dr)" by (cases f)
  with Cons.prems have "distinct (map fst dr)" by simp
  from occurrences_of_file[OF this, of d t] Cons show ?case
    by (simp add: occurrences_def f)
qed

lemma doc_postings:
  assumes "\<forall>f\<in>set fs. distinct (map fst (snd f))"
  shows "concat (map (\<lambda>f. map (\<lambda>key. fst f) (filter (\<lambda>k. k = t) (map fst (snd f)))) fs) =
         map fst (filter (\<lambda>f. t \<in> fst ` set (snd f)) fs)"
  using assms by (induction fs) (simp_all add: filter_key_distinct)

lemma fst_occurrences:
  assumes "\<forall>f\<in>set fs. distinct (map fst (snd f))"
  shows "map fst (occurrences t fs) = map fst (filter (\<lambda>f. t \<in> fst ` set (snd f)) fs)"
  using assms
proof (induction fs)
  case Nil
  show ?case by (simp add: occurrences_def)
next
  case (Cons f fs)
  obtain d dr where f: "f = (d, dr)" by (cases f)
  with Cons.prems have dd: "distinct (map fst dr)" by simp
  have "map fst (map (\<lambda>(key, tf). (d, tf)) (filter (\<lambda>(key, tf). key = t) dr)) =
        map (\<lambda>key. d) (filter (\<lambda>k. k = t) (map fst dr))"
    by (simp add: filter_map comp_def case_prod_unfold)
  also have "\<dots> = (if t \<in> fst ` set dr then [d] else [])"
    using dd by (simp add: filter_key_distinct)
  finally show ?case using Cons by (simp add: occurrences_def f)
qed

lemma weigh_list_props:
  "n \<le> length l \<Longrightarrow>
   length (fold (\<lambda>idx l. l[idx := (fst (l ! idx), snd (l ! idx) * ln (real N / real (length l)))])
             [0..<n] l) = length l \<and>
   (\<forall>i<length l.
      fold (\<lambda>idx l. l[idx := (fst (l ! idx), snd (l ! idx) * ln (real N / real (length l)))])
             [0..<n] l ! i =
      (if i < n then (fst (l ! i), snd (l ! i) * ln (real N / real (length l))) else l ! i))"
proof (induction n)
  case 0
  show ?case by simp
next
  case (Suc n)
  then show ?case by (auto simp: nth_list_update less_Suc_eq)
qed

lemma weigh_list_eq:
  "weigh_list N l = map (\<lambda>(d, tf). (d, tf * ln (real N / real (length l)))) l"
  unfolding weigh_list_def
  using weigh_list_props[of "length l" l N]
  by (intro nth_equalityI) (simp_all add: case_prod_beta)

lemma sorted_files:
  assumes "distinct (map fst files)"
  shows "sorted_wrt (<) (map fst (filter P (sort_key fst files)))"
proof -
  have "sorted (map fst (sort_key fst files))" by (rule sorted_sort_key)
  moreover have "distinct (map fst (sort_key fst files))"
    using assms by (metis distinct_map distinct_sort set_sort)
  ultimately have "sorted_wrt (<) (map fst (sort_key fst files))"
    by (simp add: strict_sorted_iff)
  then show ?thesis
    by (simp add: sorted_wrt_map sorted_wrt_filter)
qed

lemma create_inverted_idx_2_lookup:
  assumes "\<forall>f\<in>set files. distinct (map fst (snd f))"
  shows "map_of (create_inverted_idx_2 files) t =
     (if occurrences t (sort_key fst files) = [] then None
      else Some (map (\<lambda>(d, tf). (d, real_of_int tf *
                     ln (real (length files) / real (length (occurrences t (sort_key fst files))))))
                  (occurrences t (sort_key fst files))))"
proof -
  let ?fs = "sort_key fst files"
  let ?h = "\<lambda>file key. (fst file, real_of_int (the (map_of (snd file) key)))"
  let ?raw = "fold (add_entries ?h) ?fs []"
  have dk: "\<forall>f\<in>set ?fs. distinct (map fst (snd f))" using assms by simp
  have run: "create_inverted_idx_2 files =
      map (\<lambda>(key, postings). (key, weigh_list (length files) postings)) ?raw"
    by (simp add: create_inverted_idx_2_def fold_add_file_2)
  have gl: "get_list ?raw t = map (\<lambda>(d, tf). (d, real_of_int tf)) (occurrences t ?fs)"
    by (simp add: get_list_fold_add_entries raw_postings[OF dk] get_list_Nil)
  have "t \<in> dom (map_of ?raw) \<longleftrightarrow> (\<exists>f\<in>set ?fs. t \<in> fst ` set (snd f))"
    by (simp add: dom_fold_add_entries)
  also have "\<dots> \<longleftrightarrow> filter (\<lambda>f. t \<in> fst ` set (snd f)) ?fs \<noteq> []"
    by (simp add: filter_empty_conv)
  also have "\<dots> \<longleftrightarrow> occurrences t ?fs \<noteq> []"
    using fst_occurrences[OF dk, of t] by (metis map_is_Nil_conv)
  finally have dm: "t \<in> dom (map_of ?raw) \<longleftrightarrow> occurrences t ?fs \<noteq> []" .
  have raw: "map_of ?raw t = (if occurrences t ?fs = [] then None
      else Some (map (\<lambda>(d, tf). (d, real_of_int tf)) (occurrences t ?fs)))"
  proof (cases "occurrences t ?fs = []")
    case True
    with dm show ?thesis by (simp add: domIff)
  next
    case False
    with dm gl show ?thesis by (simp add: map_of_get_list)
  qed
  show ?thesis
    unfolding run map_of_map
    by (simp add: raw weigh_list_eq comp_def case_prod_unfold)
qed

text \<open>
  Claim C6. In the index built by \<^verbatim>\<open>create_inverted_idx_2\<close> (every \<^verbatim>\<open>dict_repr\<close> a
  dictionary, so with distinct keys), the list stored for a word holds, for every
  document where the word occurs and in the order of the document numbers, the pair of
  the document and \<open>raw_frequency * ln (N / df)\<close>, where \<open>N\<close> is the number of files
  scanned and \<open>df\<close> is the length of that same stored list, the final one. A word has
  a list exactly when it occurs in some document, and the list is never empty.
\<close>

theorem tfidf_uses_final_document_frequency:
  assumes "\<forall>f\<in>set files. distinct (map fst (snd f))"
  shows "(\<forall>postings. map_of (create_inverted_idx_2 files) t = Some postings \<longrightarrow>
            postings = map (\<lambda>(d, tf). (d, real_of_int tf *
                              ln (real (length files) / real (length postings))))
                         (occurrences t (sort_key fst files)) \<and>
            0 < length postings) \<and>
         (map_of (create_inverted_idx_2 files) t = None \<longleftrightarrow>
            occurrences t (sort_key fst files) = []) \<and>
         (\<forall>d dict_repr tf. (d, dict_repr) \<in> set files \<and> (t, tf) \<in> set dict_repr \<longrightarrow>
            (\<exists>postings. map_of (create_inverted_idx_2 files) t = Some postings \<and>
               (d, real_of_int tf * ln (real (length files) / real (length postings)))
                 \<in> set postings))"
proof -
  let ?occ = "occurrences t (sort_key fst files)"
  note lk = create_inverted_idx_2_lookup[OF assms, of t]
  have a: "postings = map (\<lambda>(d, tf). (d, real_of_int tf *
                              ln (real (length files) / real (length postings)))) ?occ \<and>
            0 < length postings"
    if "map_of (create_inverted_idx_2 files) t = Some postings" for postings
  proof -
    from that lk have ne: "?occ \<noteq> []" and
      p: "postings = map (\<lambda>(d, tf). (d, real_of_int tf *
                     ln (real (length files) / real (length ?occ)))) ?occ"
      by (auto split: if_splits)
    from p have "length postings = length ?occ" by simp
    with p ne show ?thesis by simp
  qed
  have b: "map_of (create_inverted_idx_2 files) t = None \<longleftrightarrow> ?occ = []"
    using lk by simp
  have c: "\<exists>postings. map_of (create_inverted_idx_2 files) t = Some postings \<and>
               (d, real_of_int tf * ln (real (length files) / real (length postings)))
                 \<in> set postings"
    if "(d, dict_repr) \<in> set files" "(t, tf) \<in> set dict_repr" for d dict_repr tf
  proof -
    from that have "(d, tf) \<in> set ?occ"
      by (force simp: occurrences_def)
    then have ne: "?occ \<noteq> []" by auto
    then obtain postings where p: "map_of (create_inverted_idx_2 files) t = Some postings"
      using lk by simp
    from a[OF p] \<open>(d, tf) \<in> set ?occ\<close>
    have "(d, real_of_int tf * ln (real (length files) / real (length postings))) \<in> set postings"
      by (metis (no_types, lifting) case_prod_conv image_eqI list.set_map)
    with p show ?thesis by blast
  qed
  from a b c show ?thesis by blast
qed

theorem tfidf_uses_final_document_frequency_witness:
  "map_of (create_inverted_idx_2 [(2, [(10, 1), (11, 2)]), (1, [(11, 3)]), (3, [(12, 1)])]) 11
     = Some [(1, 3 * ln (3 / 2)), (2, 2 * ln (3 / 2))]"
proof -
  let ?files = "[(2, [(10, 1), (11, 2)]), (1, [(11, 3)]), (3, [(12, 1)])] :: encoded_file list"
  have d: "\<forall>f\<in>set ?files. distinct (map fst (snd f))" by simp
  have o: "occurrences 11 (sort_key fst ?files) = [(1, 3), (2, 2)]"
    by (simp add: occurrences_def)
  have "(2, [(10, 1), (11, 2)]) \<in> set ?files \<and> (11, 2) \<in> set [(10 :: int, 1 :: int), (11, 2)]"
    by simp
  with tfidf_uses_final_document_frequency[OF d, of 11]
  obtain postings where p: "map_of (create_inverted_idx_2 ?files) 11 = Some postings"
    by blast
  with tfidf_uses_final_document_frequency[OF d, of 11]
  have e: "postings = map (\<lambda>(d, tf). (d, real_of_int tf *
                              ln (real (length ?files) / real (length postings))))
                         (occurrences 11 (sort_key fst ?files))"
    by blast
  have "length postings = length (occurrences 11 (sort_key fst ?files))"
    by (subst e) simp
  then have "length postings = 2" by (simp only: o) simp
  with e have "postings = [(1, 3 * ln (3 / 2)), (2, 2 * ln (3 / 2))]"
    by (simp add: occurrences_def)
  with p show ?thesis by simp
qed

text \<open>
  Claim C8. For a folder whose files have distinct document numbers (each
  \<^verbatim>\<open>dict_repr\<close> a dictionary), every list of \<^verbatim>\<open>create_inverted_idx\<close> is strictly
  ascending, hence without duplicates, and so are the document numbers of every list
  of \<^verbatim>\<open>create_inverted_idx_2\<close>: both are the numbers of the documents that hold
  the word, in the order of the sorted files.
\<close>

theorem posting_lists_strictly_ascending:
  assumes "distinct (map fst files)" and "\<forall>f\<in>set files. distinct (map fst (snd f))"
  shows "(\<forall>t postings. map_of (create_inverted_idx files) t = Some postings \<longrightarrow>
            sorted_wrt (<) postings \<and>
            postings = map fst (filter (\<lambda>f. t \<in> fst ` set (snd f)) (sort_key fst files))) \<and>
         (\<forall>t postings. map_of (create_inverted_idx_2 files) t = Some postings \<longrightarrow>
            sorted_wrt (<) (map fst postings) \<and>
            map fst postings = map fst (filter (\<lambda>f. t \<in> fst ` set (snd f)) (sort_key fst files)))"
proof -
  let ?fs = "sort_key fst files"
  have dk: "\<forall>f\<in>set ?fs. distinct (map fst (snd f))" using assms(2) by simp
  have one: "sorted_wrt (<) postings \<and>
       postings = map fst (filter (\<lambda>f. t \<in> fst ` set (snd f)) ?fs)"
    if "map_of (create_inverted_idx files) t = Some postings" for t postings
  proof -
    from that have "get_list (fold (add_entries (\<lambda>file key. fst file)) ?fs []) t = postings"
      by (simp add: create_inverted_idx_def add_file_eq get_list_def)
    then have "postings = map fst (filter (\<lambda>f. t \<in> fst ` set (snd f)) ?fs)"
      by (simp add: get_list_fold_add_entries doc_postings[OF dk] get_list_Nil)
    with sorted_files[OF assms(1)] show ?thesis by simp
  qed
  have two: "sorted_wrt (<) (map fst postings) \<and>
       map fst postings = map fst (filter (\<lambda>f. t \<in> fst ` set (snd f)) ?fs)"
    if "map_of (create_inverted_idx_2 files) t = Some postings" for t postings
  proof -
    from that create_inverted_idx_2_lookup[OF assms(2), of t]
    have "map fst postings = map fst (occurrences t ?fs)"
      by (auto simp: comp_def case_prod_unfold split: if_splits)
    then have "map fst postings = map fst (filter (\<lambda>f. t \<in> fst ` set (snd f)) ?fs)"
      by (simp add: fst_occurrences[OF dk])
    with sorted_files[OF assms(1)] show ?thesis by simp
  qed
  from one two show ?thesis by blast
qed

theorem posting_lists_strictly_ascending_witness:
  "map_of (create_inverted_idx [(10, [(5, 1)]), (2, [(5, 2), (6, 1)]), (1, [(6, 1)]), (3, [(5, 4)])]) 5
     = Some [2, 3, 10] \<and>
   sorted_wrt (<) [2, 3, 10 :: int] \<and>
   (\<exists>postings. map_of (create_inverted_idx_2
        [(10, [(5, 1)]), (2, [(5, 2), (6, 1)]), (1, [(6, 1)]), (3, [(5, 4)])]) 5 = Some postings \<and>
      map fst postings = [2, 3, 10])"
proof -
  let ?files = "[(10, [(5, 1)]), (2, [(5, 2), (6, 1)]), (1, [(6, 1)]), (3, [(5, 4)])] :: encoded_file list"
  have a: "distinct (map fst ?files)" by simp
  have b: "\<forall>f\<in>set ?files. distinct (map fst (snd f))" by simp
  have v: "map_of (create_inverted_idx ?files) 5 = Some [2, 3, 10]"
    by (simp add: create_inverted_idx_def add_file_def setdefault_append_def)
  have lk: "map_of (create_inverted_idx_2 ?files) 5 \<noteq> None"
    using create_inverted_idx_2_lookup[OF b, of 5] by (simp add: occurrences_def)
  then obtain postings where p: "map_of (create_inverted_idx_2 ?files) 5 = Some postings"
    by blast
  note t = posting_lists_strictly_ascending[OF a b]
  from t v have "sorted_wrt (<) [2, 3, 10 :: int]" by blast
  moreover from t p have "map fst postings = [2, 3, 10]" by simp
  ultimately show ?thesis using v p by auto
qed

section \<open>Queries that cannot match\<close>

lemma encode_loop_None:
  "tok \<in> set query \<Longrightarrow> vocabulary tok = None \<Longrightarrow> encode_loop query vocabulary encoded = None"
  by (induction query arbitrary: encoded) (auto split: option.splits)

text \<open>
  Claim C3. When a token of the query is not in the vocabulary, or the query has no
  token at all, \<^verbatim>\<open>encode_query\<close> followed by \<^verbatim>\<open>search_engine\<close> or by
  \<^verbatim>\<open>search_engine_2\<close> returns the empty list: no exception is raised, and the
  answer is the same whatever the inverted index and the norms hold, also for an
  index with no entry at all, where any read of a posting list would raise
  \<^verbatim>\<open>KeyError\<close>.
\<close>

theorem unmatched_query_empty_result:
  assumes "query = [] \<or> (\<exists>tok \<in> set query. vocabulary tok = None)"
  shows "search_engine (encode_query query vocabulary) inverted_idx = Inr [] \<and>
         search_engine_2 (encode_query query vocabulary) inverted_idx2
           squared_tfidf_per_document k = Inr [] \<and>
         search_engine (encode_query query vocabulary) Map.empty = Inr [] \<and>
         search_engine_2 (encode_query query vocabulary) Map.empty Map.empty k = Inr []"
proof -
  have "py_not (encode_query query vocabulary)"
    using assms
    by (auto simp: py_not_def encode_query_def encode_loop_None split: option.splits)
  then show ?thesis
    by (simp add: search_engine_def search_engine_2_def)
qed

theorem unmatched_query_empty_result_witness:
  "search_engine (encode_query [''cat'', ''dragon''] [''cat'' \<mapsto> 1, ''dog'' \<mapsto> 2])
     [1 \<mapsto> [1, 3], 2 \<mapsto> [2, 3]] = Inr [] \<and>
   search_engine_2 (encode_query [''cat'', ''dragon''] [''cat'' \<mapsto> 1, ''dog'' \<mapsto> 2])
     [1 \<mapsto> [(1, 1), (3, 1)]] [1 \<mapsto> 1, 3 \<mapsto> 1] 5 = Inr [] \<and>
   search_engine (encode_query [] [''cat'' \<mapsto> 1]) [1 \<mapsto> [1, 3]] = Inr []"
proof -
  have a: "[''cat'', ''dragon''] = [] \<or>
     (\<exists>tok \<in> set [''cat'', ''dragon'']. [''cat'' \<mapsto> (1::int), ''dog'' \<mapsto> 2] tok = None)"
    by simp
  have b: "([]::string list) = [] \<or> (\<exists>tok \<in> set []. [''cat'' \<mapsto> (1::int)] tok = None)"
    by simp
  show ?thesis
    using unmatched_query_empty_result[OF a] unmatched_query_empty_result[OF b]
    by blast
qed

section \<open>The functions together\<close>

text \<open>
  A folder with one document: its only word occurs in every document, the weight is
  \<open>3 * ln (1 / 1) = 0\<close> and so is the stored sum of squares. A query for that word
  then reaches the division of \<^verbatim>\<open>compute_cosine_similarity\<close> with a zero divisor.
\<close>

lemma single_document_index:
  "create_inverted_idx_2 [(1, [(11, 3)])] = [(11, [(1, 0)])] \<and>
   store_squared_tfidf_per_document [(11, [(1, 0)])] = [(1, 0)]"
  by (simp add: create_inverted_idx_2_def add_file_2_def setdefault_append_def weigh_list_def
      store_squared_tfidf_per_document_def)

lemma zero_norm_reachable:
  "search_engine_2 (Some [11])
     (map_of (create_inverted_idx_2 [(1, [(11, 3)])]))
     (map_of (store_squared_tfidf_per_document (create_inverted_idx_2 [(1, [(11, 3)])]))) 5
   = Inl ZeroDivisionError"
  by (simp add: single_document_index search_engine_2_def py_not_def weighted_while.simps
      cursors_in_range_def pointed_def compute_cosine_similarity_def cos_similarity_def
      py_sqrt_def py_div_def)

text \<open>
  A folder of two documents: the word 11 occurs in both, so its weights are
  \<open>tf * ln (2 / 2) = 0\<close>; document 1 holds no other word, and its stored sum of
  squares is 0.
\<close>

lemma two_document_index:
  "create_inverted_idx_2 [(1, [(11, 3)]), (2, [(11, 1), (12, 2)])] =
     [(11, [(1, 0), (2, 0)]), (12, [(2, 2 * ln 2)])]"
  by (simp add: create_inverted_idx_2_def add_file_2_def setdefault_append_def weigh_list_def)

lemma two_document_norms:
  "store_squared_tfidf_per_document [(11, [(1, 0), (2, 0)]), (12, [(2, 2 * ln 2)])] =
     [(1, 0), (2, (2 * ln 2) ^ 2)]"
  by (simp add: store_squared_tfidf_per_document_def setdefault_append_def)

text \<open>
  Claim C2 asks that a candidate whose stored norm is zero or absent be left out of
  the cosine scoring, so that the division of \<^verbatim>\<open>compute_cosine_similarity\<close> never
  has a zero divisor. The module does not do that. On the index and the norms its own
  builders store for the folder above, the query ``cat'' selects both documents, the
  division for document 1 has the divisor \<open>sqrt 0 * sqrt 1 = 0\<close>, and
  \<^verbatim>\<open>search_engine_2\<close> raises \<^verbatim>\<open>ZeroDivisionError\<close>, where the docstring of
  \<^verbatim>\<open>compute_cosine_similarity\<close> promises a dictionary of similarities.
\<close>

theorem degenerate_norm_raises:
  "search_engine_2 (encode_query [''cat''] [''cat'' \<mapsto> 11, ''dog'' \<mapsto> 12])
     (map_of (create_inverted_idx_2 [(1, [(11, 3)]), (2, [(11, 1), (12, 2)])]))
     (map_of (store_squared_tfidf_per_document
        (create_inverted_idx_2 [(1, [(11, 3)]), (2, [(11, 1), (12, 2)])]))) 5
   = Inl ZeroDivisionError \<and>
   compute_cosine_similarity [11] [(1, 0), (2, 0)] [1 \<mapsto> 0, 2 \<mapsto> (2 * ln 2) ^ 2]
   = Inl ZeroDivisionError"
  by (simp add: two_document_index two_document_norms encode_query_def search_engine_2_def
      py_not_def weighted_while.simps cursors_in_range_def pointed_def
      compute_cosine_similarity_def cos_similarity_def py_sqrt_def py_div_def)

text \<open>
  Three documents, ``the cat sat'', ``the dog sat'' and ``cat and dog'': the query
  ``cat dog'' selects the third one only.
\<close>

lemma cat_dog_example:
  "search_engine
     (encode_query [''cat'', ''dog'']
        [''the'' \<mapsto> 0, ''cat'' \<mapsto> 1, ''sat'' \<mapsto> 2, ''dog'' \<mapsto> 3, ''and'' \<mapsto> 4])
     (map_of (create_inverted_idx
        [(1, [(0, 1), (1, 1), (2, 1)]), (2, [(0, 1), (3, 1), (2, 1)]), (3, [(1, 1), (4, 1), (3, 1)])]))
   = Inr [3]"
  by (simp add: encode_query_def create_inverted_idx_def add_file_def setdefault_append_def
      search_engine_def py_not_def intersect_while.simps cursors_in_range_def pointed_def
      advance_lagging_def)

text \<open>
  A query that repeats a word: both occurrences are encoded, the list of the word is
  selected twice, its weight is added twice and the divisor has \<open>sqrt 2\<close>.
\<close>

lemma repeated_term_reachable:
  "search_engine_2 (encode_query [''cat'', ''cat''] [''cat'' \<mapsto> 1])
     [1 \<mapsto> [(7, 1)]] [7 \<mapsto> 4] 5 = Inr [(7, 2 / (sqrt 4 * sqrt 2))]"
  by (simp add: encode_query_def search_engine_2_def py_not_def weighted_while.simps
      cursors_in_range_def pointed_def compute_cosine_similarity_def cos_similarity_def
      py_sqrt_def py_div_def get_top_k_def nsmallest_def)

end
